theory Spec2Isabelle
  imports Main "HOL-Library.Product_Lexorder"
begin

section \<open>convert\_runs\_in\_hprc\_to\_locus\_table.py: the data model\<close>

text \<open>
  The script reads a tab-separated stream of (locus id, motif, sample id, allele size) lines,
  groups adjacent lines by the key (locus id, motif) and writes one row of statistics and
  histograms per group. Python strings are \<open>string\<close> (ASCII input is assumed, so that a
  character is a byte), Python's unbounded integers are \<open>int\<close>, a \<open>dict\<close> is an association
  list in insertion order (iteration order matters for \<open>Counter.most_common\<close> and for the order
  in which a bad sample is reported), a \<open>set\<close> is a HOL set.
\<close>

text \<open>
  Every way the run can stop early: \<open>parser.error\<close> on lines 121 and 148 (line number and the
  current locus id), the \<open>ValueError\<close> of line 44 (motif and the raw locus id), the
  \<open>ValueError\<close> of line 58 (number of alleles, sample, resolved locus id, motif), and the two
  failures that Python would raise on paths the script never reaches with a non-empty group
  (\<open>most_common(1)[0]\<close> on an empty counter, the unbound \<open>current_locus_id\<close> after the loop).
\<close>

datatype error =
    NotSorted nat string
  | CannotResolve string string
  | AlleleCount nat string string string
  | IndexError
  | NameError

text \<open>The nine columns of an output row, in the order of lines 66--76.\<close>

record row =
  locus_id :: string
  motif :: string
  allele_size_histogram :: string
  biallelic_histogram :: string
  mode_allele :: int
  mean :: string
  stdev :: string
  median :: int
  percentile_99 :: int

text \<open>
  The variables of \<open>main\<close> that live across loop iterations (lines 97--103), the loop variable
  \<open>current_key\<close> (whose components are \<open>current_locus_id\<close> and \<open>motif\<close>; \<open>None\<close> while unbound),
  and the rows written to the output file after its header.
\<close>

record state =
  previous_key :: "(string \<times> string) option"
  previously_seen_keys :: "(string \<times> string) set"
  alleles_for_current_key :: "int list"
  alleles_for_current_key_by_sample_id :: "(string \<times> int list) list"
  sample_ids :: "string set"
  output_lines :: nat
  current_key :: "(string \<times> string) option"
  outfile :: "row list"

section \<open>Strings\<close>

definition is_space :: "char \<Rightarrow> bool" where
  "is_space c = (c \<in> set [CHR '' '', CHR 0x09, CHR 0x0A, CHR 0x0B, CHR 0x0C, CHR 0x0D,
                            CHR 0x1C, CHR 0x1D, CHR 0x1E, CHR 0x1F])"

text \<open>\<open>str.strip()\<close>: whitespace (the ASCII characters Python counts as such) removed at both ends.\<close>

definition strip :: "string \<Rightarrow> string" where
  "strip s = rev (dropWhile is_space (rev (dropWhile is_space s)))"

text \<open>\<open>str.split(sep)\<close> for a one-character separator: the empty string gives one empty field.\<close>

fun split_on :: "char \<Rightarrow> string \<Rightarrow> string list" where
  "split_on c [] = [[]]"
| "split_on c (x # xs) =
     (if x = c then [] # split_on c xs
      else (case split_on c xs of [] \<Rightarrow> [[x]] | w # ws \<Rightarrow> (x # w) # ws))"

text \<open>\<open>s.endswith(suf)\<close>.\<close>

definition endswith :: "string \<Rightarrow> string \<Rightarrow> bool" where
  "endswith s suf = (length suf \<le> length s \<and> drop (length s - length suf) s = suf)"

text \<open>\<open>sep.join(xs)\<close>.\<close>

fun join :: "string \<Rightarrow> string list \<Rightarrow> string" where
  "join sep [] = []"
| "join sep [x] = x"
| "join sep (x # y # ys) = x @ sep @ join sep (y # ys)"

definition digit_char :: "nat \<Rightarrow> char" where
  "digit_char d = ''0123456789'' ! d"

text \<open>\<open>str(n)\<close> for an integer: decimal digits, a minus sign for a negative number.\<close>

fun str_nat :: "nat \<Rightarrow> string" where
  "str_nat n = (if n < 10 then [digit_char n] else str_nat (n div 10) @ [digit_char (n mod 10)])"

definition str_int :: "int \<Rightarrow> string" where
  "str_int i = (if i < 0 then CHR ''-'' # str_nat (nat (- i)) else str_nat (nat i))"

text \<open>
  \<open>int(s)\<close> on an ASCII string. The whitespace that \<open>int\<close> ignores at both ends is the space
  and the characters 0x09 to 0x0D only: unlike \<open>str.strip()\<close> it does not ignore 0x1C to 0x1F.
  Then one sign is allowed, then decimal digits, where single underscores may stand between
  two digits. A number of more than 4300 digits (leading zeros counted, underscores not) is
  refused, which is the default limit of CPython from version 3.11 on. \<open>None\<close> is the
  \<open>ValueError\<close>.
\<close>

definition is_int_space :: "char \<Rightarrow> bool" where
  "is_int_space c = (c \<in> set [CHR '' '', CHR 0x09, CHR 0x0A, CHR 0x0B, CHR 0x0C, CHR 0x0D])"

definition max_str_digits :: nat where
  "max_str_digits = 4300"

definition is_digit :: "char \<Rightarrow> bool" where
  "is_digit c = (48 \<le> (of_char c :: nat) \<and> (of_char c :: nat) \<le> 57)"

fun digits_value :: "nat \<Rightarrow> bool \<Rightarrow> string \<Rightarrow> nat option" where
  "digits_value acc after_digit [] = (if after_digit then Some acc else None)"
| "digits_value acc after_digit (c # cs) =
     (if is_digit c then digits_value (10 * acc + (of_char c - 48)) True cs
      else if c = CHR ''_'' \<and> after_digit \<and> cs \<noteq> [] \<and> is_digit (hd cs)
        then digits_value acc False cs
      else None)"

definition py_int :: "string \<Rightarrow> int option" where
  "py_int s =
     (case rev (dropWhile is_int_space (rev (dropWhile is_int_space s))) of
        [] \<Rightarrow> None
      | c # cs \<Rightarrow>
          if max_str_digits < length (filter is_digit cs) then None
          else if c = CHR ''-'' then map_option (\<lambda>n. - int n) (digits_value 0 False cs)
          else if c = CHR ''+'' then map_option int (digits_value 0 False cs)
          else if max_str_digits < length (filter is_digit (c # cs)) then None
          else map_option int (digits_value 0 False (c # cs)))"

section \<open>Counting dictionaries\<close>

text \<open>
  \<open>d[k] += 1\<close> on a \<open>Counter\<close> or a \<open>defaultdict(int)\<close>: a new key goes to the end of the
  iteration order.
\<close>

fun count_up :: "'a \<Rightarrow> ('a \<times> nat) list \<Rightarrow> ('a \<times> nat) list" where
  "count_up k [] = [(k, 1)]"
| "count_up k ((k', c) # rest) =
     (if k = k' then (k', c + 1) # rest else (k', c) # count_up k rest)"

text \<open>\<open>collections.Counter(xs)\<close>: the elements are counted from left to right.\<close>

definition Counter :: "'a list \<Rightarrow> ('a \<times> nat) list" where
  "Counter xs = foldl (\<lambda>d x. count_up x d) [] xs"

text \<open>
  \<open>max(items, key=itemgetter(1))\<close>, which is what \<open>most_common(1)\<close> runs: the running maximum
  is replaced only by a strictly larger count, so the first maximal item is returned.
\<close>

fun max_by_count :: "('a \<times> nat) \<Rightarrow> ('a \<times> nat) list \<Rightarrow> ('a \<times> nat)" where
  "max_by_count best [] = best"
| "max_by_count best (p # ps) = max_by_count (if snd best < snd p then p else best) ps"

definition most_common_1 :: "('a \<times> nat) list \<Rightarrow> ('a \<times> nat) list" where
  "most_common_1 d = (case d of [] \<Rightarrow> [] | p # ps \<Rightarrow> [max_by_count p ps])"

text \<open>\<open>d[k].append(v)\<close> on a \<open>defaultdict(list)\<close>.\<close>

fun append_to :: "'k \<Rightarrow> 'v \<Rightarrow> ('k \<times> 'v list) list \<Rightarrow> ('k \<times> 'v list) list" where
  "append_to k v [] = [(k, [v])]"
| "append_to k v ((k', vs) # rest) =
     (if k = k' then (k', vs @ [v]) # rest else (k', vs) # append_to k v rest)"

section \<open>The numeric columns\<close>

text \<open>
  The four numeric columns come from numpy, which computes in 64-bit floating point. They are
  read here in exact arithmetic on fractions of integers: the value a column has when no
  floating-point rounding intervenes. Where the exact value lies on or next to a boundary of
  rounding or truncation, the program's column can differ from this reading by one unit in the
  last place (the 99th percentile of 0, 0, 0, 100 is 97 here and 96 in floating point). No
  general statement below rests on these four definitions; they are evaluated only in the
  worked example, where the values 32/3, 10 and 11.96 are far from any boundary.
\<close>

definition pad3 :: "nat \<Rightarrow> string" where
  "pad3 n = [digit_char (n div 100 mod 10), digit_char (n div 10 mod 10), digit_char (n mod 10)]"

text \<open>The thousandths nearest to \<open>n / d\<close> (for \<open>d > 0\<close>), a tie going to the even one.\<close>

definition round_thousandths :: "nat \<Rightarrow> nat \<Rightarrow> nat" where
  "round_thousandths n d =
     (let q = (1000 * n) div d; r = (1000 * n) mod d
      in if d < 2 * r then Suc q else if 2 * r < d then q else if even q then q else Suc q)"

text \<open>\<open>f"{x:.3f}"\<close> for \<open>x = num / den\<close>.\<close>

definition format_3f :: "int \<Rightarrow> nat \<Rightarrow> string" where
  "format_3f num den =
     (let t = round_thousandths (nat \<bar>num\<bar>) den
      in (if num < 0 then ''-'' else '''') @ str_nat (t div 1000) @ ''.'' @ pad3 (t mod 1000))"

definition np_mean_3f :: "int list \<Rightarrow> string" where
  "np_mean_3f xs = format_3f (sum_list xs) (length xs)"

fun isqrt :: "nat \<Rightarrow> nat" where
  "isqrt n =
     (if n = 0 then 0
      else (let r = 2 * isqrt (n div 4) in if (r + 1) * (r + 1) \<le> n then r + 1 else r))"

text \<open>
  \<open>f"{np.std(xs):.3f}"\<close>: the population standard deviation is \<open>sqrt D / N\<close> for
  \<open>D = N * sum of squares - (sum)\<^sup>2\<close>; its thousandths are found with the integer square root.
\<close>

definition np_std_3f :: "int list \<Rightarrow> string" where
  "np_std_3f xs =
     (let n = length xs;
          d = nat (int n * sum_list (map (\<lambda>x. x * x) xs) - sum_list xs * sum_list xs);
          q = isqrt ((1000000 * d) div (n * n));
          lhs = (2 * q + 1) * (2 * q + 1) * (n * n);
          rhs = 4 * (1000000 * d);
          t = (if lhs < rhs then Suc q else if rhs < lhs then q else if even q then q else Suc q)
      in str_nat (t div 1000) @ ''.'' @ pad3 (t mod 1000))"

text \<open>\<open>int(x)\<close> for \<open>x = num / den\<close> with \<open>den > 0\<close>: truncation toward zero.\<close>

definition int_trunc :: "int \<Rightarrow> int \<Rightarrow> int" where
  "int_trunc num den = (if num < 0 then - ((- num) div den) else num div den)"

text \<open>\<open>int(np.median(xs))\<close> on a sorted list.\<close>

definition np_median_int :: "int list \<Rightarrow> int" where
  "np_median_int xs =
     (let n = length xs
      in if odd n then xs ! (n div 2)
         else int_trunc (xs ! (n div 2 - 1) + xs ! (n div 2)) 2)"

text \<open>
  \<open>int(np.percentile(xs, 99))\<close> on a sorted list, with numpy's default linear interpolation:
  the rank \<open>(N - 1) * 99 / 100\<close> is split into its integer part \<open>i\<close> and its fraction \<open>g / 100\<close>.
\<close>

definition np_percentile_99_int :: "int list \<Rightarrow> int" where
  "np_percentile_99_int xs =
     (let n = length xs;
          i = ((n - 1) * 99) div 100;
          g = ((n - 1) * 99) mod 100;
          lo = xs ! i;
          hi = xs ! (min (Suc i) (n - 1))
      in int_trunc (lo * 100 + (hi - lo) * int g) 100)"

section \<open>process\_group\<close>

text \<open>Lines 37--46: a locus id with a comma is resolved to its first part ending in \<open>-motif\<close>.\<close>

definition resolve_locus_id :: "string \<Rightarrow> string \<Rightarrow> error + string" where
  "resolve_locus_id loc mot =
     (if CHR '','' \<in> set loc then
        (case find (\<lambda>specific_locus_id. endswith specific_locus_id (''-'' @ mot))
                (split_on CHR '','' loc) of
           None \<Rightarrow> Inl (CannotResolve mot loc)
         | Some found_locus_id \<Rightarrow> Inr found_locus_id)
      else Inr loc)"

text \<open>\<open>tuple(sorted(allele_list))\<close> for a list of two alleles.\<close>

definition sorted_pair :: "int \<Rightarrow> int \<Rightarrow> int \<times> int" where
  "sorted_pair a b = (min a b, max a b)"

text \<open>
  Lines 53--60: the loop over the samples of the group. One allele is doubled, two are kept,
  any other number raises; the sorted pair is counted.
\<close>

fun genotype_loop ::
  "string \<Rightarrow> string \<Rightarrow> (string \<times> int list) list \<Rightarrow> ((int \<times> int) \<times> nat) list
     \<Rightarrow> error + ((int \<times> int) \<times> nat) list" where
  "genotype_loop loc mot [] genotype_counts = Inr genotype_counts"
| "genotype_loop loc mot ((sample_id, allele_list) # rest) genotype_counts =
     (case allele_list of
        [a] \<Rightarrow> genotype_loop loc mot rest (count_up (sorted_pair a a) genotype_counts)
      | [a, b] \<Rightarrow> genotype_loop loc mot rest (count_up (sorted_pair a b) genotype_counts)
      | _ \<Rightarrow> Inl (AlleleCount (length allele_list) sample_id loc mot))"

text \<open>Line 62: the allele-size histogram of the counter's items, sorted.\<close>

definition allele_size_entry :: "int \<times> nat \<Rightarrow> string" where
  "allele_size_entry e = str_int (fst e) @ ''x:'' @ str_nat (snd e)"

definition allele_size_histogram_str :: "(int \<times> nat) list \<Rightarrow> string" where
  "allele_size_histogram_str allele_counts = join '','' (map allele_size_entry (sort allele_counts))"

text \<open>Line 63: the genotype histogram, sorted by the key (larger allele, smaller allele).\<close>

definition genotype_entry :: "(int \<times> int) \<times> nat \<Rightarrow> string" where
  "genotype_entry e =
     str_int (fst (fst e)) @ ''/'' @ str_int (snd (fst e)) @ '':'' @ str_nat (snd e)"

definition genotype_sort_key :: "(int \<times> int) \<times> nat \<Rightarrow> int \<times> int" where
  "genotype_sort_key x = (snd (fst x), fst (fst x))"

definition biallelic_histogram_str :: "((int \<times> int) \<times> nat) list \<Rightarrow> string" where
  "biallelic_histogram_str genotype_counts =
     join '','' (map genotype_entry (sort_key genotype_sort_key genotype_counts))"

text \<open>
  \<open>process_group\<close> (lines 31--76). The result is the error raised, or the row written to the
  output file (\<open>None\<close> when the function returns on line 35 without writing).
\<close>

definition process_group ::
  "string \<Rightarrow> string \<Rightarrow> int list \<Rightarrow> (string \<times> int list) list \<Rightarrow> error + row option" where
  "process_group loc mot allele_sizes by_sample =
     (if allele_sizes = [] then Inr None
      else
        (case resolve_locus_id loc mot of
           Inl e \<Rightarrow> Inl e
         | Inr resolved \<Rightarrow>
             (let sorted_sizes = sort allele_sizes;
                  allele_counts = Counter sorted_sizes
              in (case most_common_1 allele_counts of
                    [] \<Rightarrow> Inl IndexError
                  | (mode, _) # _ \<Rightarrow>
                      (case genotype_loop resolved mot by_sample [] of
                         Inl e \<Rightarrow> Inl e
                       | Inr genotype_counts \<Rightarrow>
                           Inr (Some \<lparr>locus_id = resolved,
                                      motif = mot,
                                      allele_size_histogram = allele_size_histogram_str allele_counts,
                                      biallelic_histogram = biallelic_histogram_str genotype_counts,
                                      mode_allele = mode,
                                      mean = np_mean_3f sorted_sizes,
                                      stdev = np_std_3f sorted_sizes,
                                      median = np_median_int sorted_sizes,
                                      percentile_99 = np_percentile_99_int sorted_sizes\<rparr>))))))"

text \<open>The text of a row (lines 66--76) and of the header (lines 85--95).\<close>

definition row_line :: "row \<Rightarrow> string" where
  "row_line r =
     join [CHR 0x09]
       [locus_id r, motif r, allele_size_histogram r, biallelic_histogram r,
        str_int (mode_allele r), mean r, stdev r, str_int (median r), str_int (percentile_99 r)]
     @ [CHR 0x0A]"

definition header_line :: string where
  "header_line =
     join [CHR 0x09]
       [''locus_id'', ''motif'', ''allele_size_histogram'', ''biallelic_histogram'',
        ''mode_allele'', ''mean'', ''stdev'', ''median'', ''99th_percentile'']
     @ [CHR 0x0A]"

section \<open>main\<close>

definition init_state :: state where
  "init_state =
     \<lparr>previous_key = None, previously_seen_keys = {}, alleles_for_current_key = [],
      alleles_for_current_key_by_sample_id = [], sample_ids = {}, output_lines = 0,
      current_key = None, outfile = []\<rparr>"

text \<open>Line 105: the fields of a line.\<close>

definition fields_of :: "string \<Rightarrow> string list" where
  "fields_of line = split_on (CHR 0x09) (strip line)"

definition key_of :: "string list \<Rightarrow> string \<times> string" where
  "key_of fs = (fs ! 0, fs ! 1)"

definition written :: "row option \<Rightarrow> row list" where
  "written w = (case w of None \<Rightarrow> [] | Some r \<Rightarrow> [r])"

text \<open>
  Lines 118--132, entered when the key of the line differs from \<open>previous_key\<close>: the duplicate
  check, then the insertion into \<open>previously_seen_keys\<close>, then \<open>process_group\<close> on the
  accumulators, which are emptied afterwards.
\<close>

definition key_changed :: "state \<Rightarrow> nat \<Rightarrow> string \<times> string \<Rightarrow> string \<times> string \<Rightarrow> error + state" where
  "key_changed s line_number pk ck =
     (if pk \<in> previously_seen_keys s then Inl (NotSorted line_number (fst ck))
      else
        (case process_group (fst pk) (snd pk) (alleles_for_current_key s)
                (alleles_for_current_key_by_sample_id s) of
           Inl e \<Rightarrow> Inl e
         | Inr w \<Rightarrow>
             Inr (s\<lparr>previously_seen_keys := insert pk (previously_seen_keys s),
                    previous_key := Some ck,
                    outfile := outfile s @ written w,
                    alleles_for_current_key := [],
                    alleles_for_current_key_by_sample_id := [],
                    output_lines := Suc (output_lines s)\<rparr>)))"

text \<open>Lines 135--141: the allele size is recorded, or the record is skipped with a warning.\<close>

definition record_allele :: "state \<Rightarrow> string \<Rightarrow> string \<Rightarrow> state" where
  "record_allele s sample_id allele_size =
     (case py_int allele_size of
        None \<Rightarrow> s
      | Some v \<Rightarrow>
          s\<lparr>alleles_for_current_key := alleles_for_current_key s @ [v],
            alleles_for_current_key_by_sample_id :=
              append_to sample_id v (alleles_for_current_key_by_sample_id s)\<rparr>)"

text \<open>
  The body of the loop (lines 105--141) on the line with number \<open>line_number\<close>. The warnings
  printed on lines 107 and 140 go to the terminal and are not part of the state.
\<close>

definition step :: "state \<Rightarrow> nat \<Rightarrow> string \<Rightarrow> error + state" where
  "step s line_number line =
     (let fields = fields_of line
      in if length fields \<noteq> 4 then Inr s
         else
           (let ck = key_of fields;
                sample_id = fields ! 2;
                allele_size = fields ! 3;
                s1 = s\<lparr>sample_ids := insert sample_id (sample_ids s), current_key := Some ck\<rparr>;
                s2 = (if previous_key s1 = None then s1\<lparr>previous_key := Some ck\<rparr> else s1)
            in (case (if Some ck \<noteq> previous_key s2
                      then key_changed s2 line_number (the (previous_key s2)) ck
                      else Inr s2) of
                  Inl e \<Rightarrow> Inl e
                | Inr s3 \<Rightarrow> Inr (record_allele s3 sample_id allele_size))))"

text \<open>
  The loop over the lines, numbered from \<open>line_number\<close>. An error stops the run; the rows
  written so far are returned with it.
\<close>

fun run_loop :: "state \<Rightarrow> nat \<Rightarrow> string list \<Rightarrow> (error \<times> row list) + state" where
  "run_loop s line_number [] = Inr s"
| "run_loop s line_number (line # rest) =
     (case step s line_number line of
        Inl e \<Rightarrow> Inl (e, outfile s)
      | Inr s' \<Rightarrow> run_loop s' (Suc line_number) rest)"

text \<open>
  Lines 143--148, after the loop: the last group is processed if it has an allele size, and
  only then is its key looked up in \<open>previously_seen_keys\<close>. \<open>line_number\<close> is the number of
  the last line read.
\<close>

definition last_group :: "state \<Rightarrow> nat \<Rightarrow> (error \<times> row list) + state" where
  "last_group s line_number =
     (if alleles_for_current_key s \<noteq> [] then
        (case current_key s of
           None \<Rightarrow> Inl (NameError, outfile s)
         | Some ck \<Rightarrow>
             (case process_group (fst ck) (snd ck) (alleles_for_current_key s)
                     (alleles_for_current_key_by_sample_id s) of
                Inl e \<Rightarrow> Inl (e, outfile s)
              | Inr w \<Rightarrow>
                  (let s' = s\<lparr>outfile := outfile s @ written w,
                              output_lines := Suc (output_lines s)\<rparr>
                   in if ck \<in> previously_seen_keys s
                      then Inl (NotSorted line_number (fst ck), outfile s')
                      else Inr s')))
      else Inr s)"

definition main :: "string list \<Rightarrow> (error \<times> row list) + state" where
  "main lines =
     (case run_loop init_state 1 lines of
        Inl x \<Rightarrow> Inl x
      | Inr s \<Rightarrow> last_group s (length lines))"

section \<open>The input stream, as the properties speak of it\<close>

text \<open>A line of the input file with the given fields.\<close>

definition tsv_line :: "string list \<Rightarrow> string" where
  "tsv_line fs = join [CHR 0x09] fs @ [CHR 0x0A]"

text \<open>The records of a stream: the field lists of its lines with four fields.\<close>

definition records_of :: "string list \<Rightarrow> string list list" where
  "records_of lines = filter (\<lambda>fs. length fs = 4) (map fields_of lines)"

definition keys_of :: "string list \<Rightarrow> (string \<times> string) list" where
  "keys_of lines = map key_of (records_of lines)"

text \<open>
  The open group of a stream read so far: its last record and the records before it, back to
  the last change of key.
\<close>

definition open_group :: "string list \<Rightarrow> string list list" where
  "open_group lines =
     (let rs = records_of lines
      in rev (takeWhile (\<lambda>fs. key_of fs = key_of (last rs)) (rev rs)))"

text \<open>The valid records of a group are those whose allele size is an integer.\<close>

definition valid_records :: "string list list \<Rightarrow> string list list" where
  "valid_records rs = filter (\<lambda>fs. py_int (fs ! 3) \<noteq> None) rs"

definition valid_sizes :: "string list list \<Rightarrow> int list" where
  "valid_sizes rs = map (\<lambda>fs. the (py_int (fs ! 3))) (valid_records rs)"

text \<open>
  The allele sizes of the valid records of a group by sample id: every size is appended to
  the list of its sample, and the samples stand in the order of their first valid record.
\<close>

definition samples_of :: "string list list \<Rightarrow> (string \<times> int list) list" where
  "samples_of rs =
     foldl (\<lambda>d fs. append_to (fs ! 2) (the (py_int (fs ! 3))) d) [] (valid_records rs)"

text \<open>
  The genotype of a sample as the specification words it: one allele is doubled to a
  homozygous pair, two alleles are put in ascending order.
\<close>

definition genotype_of :: "int list \<Rightarrow> int \<times> int" where
  "genotype_of allele_list =
     (if length allele_list = 1 then (allele_list ! 0, allele_list ! 0)
      else (min (allele_list ! 0) (allele_list ! 1), max (allele_list ! 0) (allele_list ! 1)))"

text \<open>
  What the variables of the loop hold after the lines \<open>pre\<close> have been read without an error:
  the key of the last record, the allele sizes of the valid records of the open group, the
  same sizes by sample, and the keys of the groups that came before the open one.
\<close>

definition loop_invariant :: "string list \<Rightarrow> state \<Rightarrow> bool" where
  "loop_invariant pre s =
     (previous_key s = (if keys_of pre = [] then None else Some (last (keys_of pre))) \<and>
      current_key s = previous_key s \<and>
      alleles_for_current_key s = valid_sizes (open_group pre) \<and>
      alleles_for_current_key_by_sample_id s = samples_of (open_group pre) \<and>
      previously_seen_keys s = set (butlast (remdups_adj (keys_of pre))))"

text \<open>The rows in the output file when the run has ended, with or without an error.\<close>

definition rows_written :: "(error \<times> row list) + state \<Rightarrow> row list" where
  "rows_written result = (case result of Inl (e, rows) \<Rightarrow> rows | Inr s \<Rightarrow> outfile s)"

section \<open>Example streams\<close>

text \<open>
  Four groups of one record each, of which the third repeats the key of the first; the rows
  of the groups; and the state of the loop after the first line and after the third.
\<close>

definition reappearing_stream :: "string list" where
  "reappearing_stream =
     [tsv_line [''K1'', ''A'', ''S1'', ''10''],
      tsv_line [''K2'', ''A'', ''S1'', ''12''],
      tsv_line [''K1'', ''A'', ''S2'', ''99''],
      tsv_line [''K3'', ''A'', ''S2'', ''10'']]"

definition row_K1 :: row where
  "row_K1 =
     \<lparr>locus_id = ''K1'', motif = ''A'', allele_size_histogram = ''10x:1'',
      biallelic_histogram = ''10/10:1'', mode_allele = 10, mean = ''10.000'',
      stdev = np_std_3f [10], median = 10, percentile_99 = 10\<rparr>"

definition row_K2 :: row where
  "row_K2 =
     \<lparr>locus_id = ''K2'', motif = ''A'', allele_size_histogram = ''12x:1'',
      biallelic_histogram = ''12/12:1'', mode_allele = 12, mean = ''12.000'',
      stdev = np_std_3f [12], median = 12, percentile_99 = 12\<rparr>"

definition row_K1_again :: row where
  "row_K1_again =
     \<lparr>locus_id = ''K1'', motif = ''A'', allele_size_histogram = ''99x:1'',
      biallelic_histogram = ''99/99:1'', mode_allele = 99, mean = ''99.000'',
      stdev = np_std_3f [99], median = 99, percentile_99 = 99\<rparr>"

definition state_after_1 :: state where
  "state_after_1 =
     \<lparr>previous_key = Some (''K1'', ''A''), previously_seen_keys = {},
      alleles_for_current_key = [10],
      alleles_for_current_key_by_sample_id = [(''S1'', [10])],
      sample_ids = {''S1''}, output_lines = 0, current_key = Some (''K1'', ''A''),
      outfile = []\<rparr>"

definition state_after_3 :: state where
  "state_after_3 =
     \<lparr>previous_key = Some (''K1'', ''A''),
      previously_seen_keys = {(''K2'', ''A''), (''K1'', ''A'')},
      alleles_for_current_key = [99],
      alleles_for_current_key_by_sample_id = [(''S2'', [99])],
      sample_ids = {''S2'', ''S1''}, output_lines = 2, current_key = Some (''K1'', ''A''),
      outfile = [row_K1, row_K2]\<rparr>"

text \<open>
  Two groups, the first with a line that is not a record and two records whose allele size
  is not an integer (the second is \<open>7\<close> after the character 0x1C, which \<open>int\<close> refuses); and the
  rows of the two groups.
\<close>

definition two_groups_stream :: "string list" where
  "two_groups_stream =
     [tsv_line [''L1'', ''A'', ''S1'', ''10''],
      tsv_line [''L1'', ''A'', ''S1'', ''12''],
      tsv_line [''junk''],
      tsv_line [''L1'', ''A'', ''S2'', ''10''],
      tsv_line [''L1'', ''A'', ''S3'', ''NA''],
      tsv_line [''L1'', ''A'', ''S4'', [CHR 0x1C, CHR ''7'']],
      tsv_line [''L2'', ''T'', ''S1'', ''5'']]"

definition row_L1 :: row where
  "row_L1 =
     \<lparr>locus_id = ''L1'', motif = ''A'', allele_size_histogram = ''10x:2,12x:1'',
      biallelic_histogram = ''10/10:1,10/12:1'', mode_allele = 10, mean = ''10.667'',
      stdev = np_std_3f [10, 10, 12], median = 10, percentile_99 = 11\<rparr>"

definition row_L2 :: row where
  "row_L2 =
     \<lparr>locus_id = ''L2'', motif = ''T'', allele_size_histogram = ''5x:1'',
      biallelic_histogram = ''5/5:1'', mode_allele = 5, mean = ''5.000'',
      stdev = np_std_3f [5], median = 5, percentile_99 = 5\<rparr>"

section \<open>Evaluation on numerals\<close>

declare str_nat.simps [simp del] isqrt.simps [simp del]

lemma str_nat_numeral:
  "str_nat (numeral k) =
     (if (numeral k :: nat) < 10 then [digit_char (numeral k)]
      else str_nat (numeral k div 10) @ [digit_char (numeral k mod 10)])"
  by (rule str_nat.simps)

lemma str_nat_Suc:
  "str_nat (Suc n) =
     (if Suc n < 10 then [digit_char (Suc n)]
      else str_nat (Suc n div 10) @ [digit_char (Suc n mod 10)])"
  by (rule str_nat.simps)

lemma str_nat_0_1: "str_nat 0 = ''0''" "str_nat 1 = ''1''"
  by (simp_all add: str_nat.simps [of 0] str_nat.simps [of "Suc 0"] digit_char_def)

lemmas eval_simps = str_nat_numeral str_nat_Suc str_nat_0_1 digit_char_def str_int_def

section \<open>Counting dictionaries and sorting: auxiliary facts\<close>

lemma map_fst_count_up:
  "map fst (count_up k d) = (if k \<in> fst ` set d then map fst d else map fst d @ [k])"
  by (induction k d rule: count_up.induct) (fastforce simp: image_iff)+

lemma fst_set_count_up: "fst ` set (count_up k d) = insert k (fst ` set d)"
proof -
  have "set (map fst (count_up k d)) = insert k (set (map fst d))"
    unfolding map_fst_count_up by auto
  then show ?thesis by simp
qed

lemma sum_count_up: "sum_list (map snd (count_up k d)) = sum_list (map snd d) + 1"
  by (induction d) auto

lemma map_of_count_up:
  "map_of (count_up k d) = (map_of d)(k \<mapsto> (case map_of d k of None \<Rightarrow> 1 | Some c \<Rightarrow> c + 1))"
  by (induction d) (auto simp: fun_eq_iff)

lemma Counter_snoc: "Counter (xs @ [x]) = count_up x (Counter xs)"
  by (simp add: Counter_def)

lemma sum_Counter: "sum_list (map snd (Counter xs)) = length xs"
  by (induction xs rule: rev_induct) (simp_all add: Counter_snoc sum_count_up, simp add: Counter_def)

lemma fst_set_Counter: "fst ` set (Counter xs) = set xs"
  by (induction xs rule: rev_induct) (simp_all add: Counter_snoc fst_set_count_up, simp add: Counter_def)

lemma distinct_Counter: "distinct (map fst (Counter xs))"
  by (induction xs rule: rev_induct) (simp_all add: Counter_snoc map_fst_count_up, simp add: Counter_def)

lemma map_of_Counter:
  "map_of (Counter xs) k = (if k \<in> set xs then Some (count_list xs k) else None)"
proof (induction xs rule: rev_induct)
  case Nil
  then show ?case by (simp add: Counter_def)
next
  case (snoc x xs)
  then show ?case by (auto simp: Counter_snoc map_of_count_up)
qed

lemma Counter_count: "(k, c) \<in> set (Counter xs) \<Longrightarrow> c = count_list xs k"
proof -
  assume a: "(k, c) \<in> set (Counter xs)"
  then have "map_of (Counter xs) k = Some c"
    using distinct_Counter [of xs] by (rule_tac map_of_is_SomeI)
  then show ?thesis
    by (simp add: map_of_Counter split: if_splits)
qed

lemma sorted_Counter: "sorted xs \<Longrightarrow> sorted (map fst (Counter xs))"
proof (induction xs rule: rev_induct)
  case Nil
  then show ?case by (simp add: Counter_def)
next
  case (snoc x xs)
  then have s: "sorted (map fst (Counter xs))" and le: "\<forall>y\<in>set xs. y \<le> x"
    by (auto simp: sorted_append)
  have "set (map fst (Counter xs)) = set xs"
    by (simp add: fst_set_Counter)
  with le have "\<forall>y\<in>set (map fst (Counter xs)). y \<le> x"
    by blast
  with s have "sorted (map fst (Counter xs) @ [x])"
    by (simp add: sorted_append)
  with s show ?case
    by (simp add: Counter_snoc map_fst_count_up)
qed

lemma count_list_insort: "count_list (insort_key f x xs) a = count_list (x # xs) a"
  by (induction xs) auto

lemma count_list_sort: "count_list (sort_key f xs) a = count_list xs a"
  by (induction xs) (auto simp: count_list_insort)

lemma sum_snd_insort: "sum_list (map g (insort_key f x xs)) = g x + sum_list (map g xs)"
  for g :: "'a \<Rightarrow> nat"
  by (induction xs) auto

lemma sum_snd_sort: "sum_list (map g (sort_key f xs)) = sum_list (map g xs)"
  for g :: "'a \<Rightarrow> nat"
  by (induction xs) (auto simp: sum_snd_insort)

lemma max_by_count_first:
  "sorted (map fst ps) \<Longrightarrow> \<forall>q\<in>set ps. fst best \<le> fst q \<Longrightarrow>
   max_by_count best ps \<in> set (best # ps) \<and>
   (\<forall>q\<in>set (best # ps). snd q \<le> snd (max_by_count best ps) \<and>
       (snd q = snd (max_by_count best ps) \<longrightarrow> fst (max_by_count best ps) \<le> fst q))"
proof (induction ps arbitrary: best)
  case Nil
  then show ?case by simp
next
  case (Cons p ps)
  let ?b = "if snd best < snd p then p else best"
  have "sorted (map fst ps)" and "\<forall>q\<in>set ps. fst ?b \<le> fst q"
    using Cons.prems by auto
  from Cons.IH [OF this] Cons.prems show ?case
    by (auto split: if_splits)
qed

section \<open>process\_group: auxiliary facts\<close>

lemma Counter_not_Nil: "xs \<noteq> [] \<Longrightarrow> Counter xs \<noteq> []"
  using fst_set_Counter [of xs] by auto

lemma Counter_member: "a \<in> set xs \<Longrightarrow> (a, count_list xs a) \<in> set (Counter xs)"
  using map_of_Counter [of xs a] by (auto dest: map_of_SomeD)

lemma process_group_SomeD:
  assumes "process_group loc mot allele_sizes by_sample = Inr (Some r)"
  shows "allele_sizes \<noteq> [] \<and>
    (\<exists>resolved p ps genotype_counts.
       resolve_locus_id loc mot = Inr resolved \<and>
       Counter (sort allele_sizes) = p # ps \<and>
       genotype_loop resolved mot by_sample [] = Inr genotype_counts \<and>
       locus_id r = resolved \<and> motif r = mot \<and>
       allele_size_histogram r = allele_size_histogram_str (Counter (sort allele_sizes)) \<and>
       biallelic_histogram r = biallelic_histogram_str genotype_counts \<and>
       mode_allele r = fst (max_by_count p ps))"
  using assms
  by (auto simp: process_group_def most_common_1_def Let_def
      split: if_splits sum.splits list.splits prod.splits)

lemma mode_of_counter:
  assumes "Counter (sort xs) = p # ps"
  shows "fst (max_by_count p ps) =
         Min {a \<in> set xs. count_list xs a = Max (count_list xs ` set xs)}"
proof -
  let ?d = "Counter (sort xs)"
  let ?m = "max_by_count p ps"
  have srt: "sorted (map fst (p # ps))"
    using sorted_Counter [of "sort xs"] assms by simp
  then have "sorted (map fst ps)" and "\<forall>q\<in>set ps. fst p \<le> fst q"
    by auto
  from max_by_count_first [OF this]
  have m_in: "?m \<in> set ?d"
    and m_max: "\<And>q. q \<in> set ?d \<Longrightarrow> snd q \<le> snd ?m"
    and m_first: "\<And>q. q \<in> set ?d \<Longrightarrow> snd q = snd ?m \<Longrightarrow> fst ?m \<le> fst q"
    unfolding assms by blast+
  have cnt: "\<And>k c. (k, c) \<in> set ?d \<Longrightarrow> c = count_list xs k"
    using Counter_count [of _ _ "sort xs"] by (simp add: count_list_sort)
  have mem: "\<And>a. a \<in> set xs \<Longrightarrow> (a, count_list xs a) \<in> set ?d"
    using Counter_member [of _ "sort xs"] by (simp add: count_list_sort)
  have m_eq: "snd ?m = count_list xs (fst ?m)"
    using cnt [of "fst ?m" "snd ?m"] m_in by simp
  have m_set: "fst ?m \<in> set xs"
    using m_in fst_set_Counter [of "sort xs"] by force
  have "Max (count_list xs ` set xs) = snd ?m"
  proof (rule Max_eqI)
    show "finite (count_list xs ` set xs)" by simp
    show "\<And>y. y \<in> count_list xs ` set xs \<Longrightarrow> y \<le> snd ?m"
      using mem m_max by fastforce
    show "snd ?m \<in> count_list xs ` set xs"
      using m_eq m_set by simp
  qed
  then have set_eq: "{a \<in> set xs. count_list xs a = Max (count_list xs ` set xs)} =
                     {a \<in> set xs. count_list xs a = snd ?m}"
    by simp
  have "Min {a \<in> set xs. count_list xs a = snd ?m} = fst ?m"
  proof (rule Min_eqI)
    show "finite {a \<in> set xs. count_list xs a = snd ?m}" by simp
    show "\<And>y. y \<in> {a \<in> set xs. count_list xs a = snd ?m} \<Longrightarrow> fst ?m \<le> y"
      using mem m_first by fastforce
    show "fst ?m \<in> {a \<in> set xs. count_list xs a = snd ?m}"
      using m_eq m_set by simp
  qed
  with set_eq show ?thesis by simp
qed

text \<open>
  C2. Whenever \<open>process_group\<close> writes a row (so the group has at least one allele size), its
  \<open>mode_allele\<close> is the smallest of the allele sizes whose number of occurrences in
  \<open>allele_sizes\<close> is the largest one.
\<close>

theorem mode_allele_smallest_most_frequent:
  assumes "process_group loc mot allele_sizes by_sample = Inr (Some r)"
  shows "mode_allele r =
         Min {a \<in> set allele_sizes.
              count_list allele_sizes a = Max (count_list allele_sizes ` set allele_sizes)}"
proof -
  from process_group_SomeD [OF assms] obtain p ps
    where "Counter (sort allele_sizes) = p # ps" and "mode_allele r = fst (max_by_count p ps)"
    by blast
  then show ?thesis
    by (simp add: mode_of_counter)
qed

lemma genotype_loop_eq:
  "genotype_loop loc mot by_sample acc =
     (case find (\<lambda>x. length (snd x) \<noteq> 1 \<and> length (snd x) \<noteq> 2) by_sample of
        Some x \<Rightarrow> Inl (AlleleCount (length (snd x)) (fst x) loc mot)
      | None \<Rightarrow> Inr (foldl (\<lambda>d g. count_up g d) acc (map (\<lambda>x. genotype_of (snd x)) by_sample)))"
proof (induction by_sample arbitrary: acc)
  case Nil
  then show ?case by simp
next
  case (Cons x rest)
  obtain sample_id allele_list where x: "x = (sample_id, allele_list)"
    by (cases x)
  show ?case
  proof (cases allele_list)
    case Nil
    with x show ?thesis by (simp split: option.splits)
  next
    case c1: (Cons a as)
    show ?thesis
    proof (cases as)
      case Nil
      with x c1 Cons.IH show ?thesis
        by (simp add: genotype_of_def sorted_pair_def split: option.splits)
    next
      case c2: (Cons b bs)
      show ?thesis
      proof (cases bs)
        case Nil
        with x c1 c2 Cons.IH show ?thesis
          by (simp add: genotype_of_def sorted_pair_def split: option.splits)
      next
        case (Cons c cs)
        with x c1 c2 show ?thesis by (simp split: option.splits)
      qed
    qed
  qed
qed

lemma genotype_loop_Counter:
  "find (\<lambda>x. length (snd x) \<noteq> 1 \<and> length (snd x) \<noteq> 2) by_sample = None \<Longrightarrow>
   genotype_loop loc mot by_sample [] = Inr (Counter (map (\<lambda>x. genotype_of (snd x)) by_sample))"
  by (simp add: genotype_loop_eq Counter_def)

lemma inj_genotype_sort_key: "inj_on genotype_sort_key (set (Counter gs))"
proof (rule inj_onI)
  fix x y
  assume x: "x \<in> set (Counter gs)" and y: "y \<in> set (Counter gs)"
    and k: "genotype_sort_key x = genotype_sort_key y"
  from k have f: "fst x = fst y"
    by (simp add: genotype_sort_key_def prod_eq_iff)
  have "snd x = count_list gs (fst x)"
    using x Counter_count [of "fst x" "snd x" gs] by simp
  moreover have "snd y = count_list gs (fst y)"
    using y Counter_count [of "fst y" "snd y" gs] by simp
  ultimately have "snd x = snd y"
    using f by simp
  with f show "x = y"
    by (simp add: prod_eq_iff)
qed

lemma set_Counter: "set (Counter xs) = (\<lambda>a. (a, count_list xs a)) ` set xs"
proof (intro set_eqI iffI)
  fix e assume e: "e \<in> set (Counter xs)"
  then have "snd e = count_list xs (fst e)"
    using Counter_count [of "fst e" "snd e" xs] by simp
  moreover have "fst e \<in> set xs"
    using e fst_set_Counter [of xs] by force
  ultimately show "e \<in> (\<lambda>a. (a, count_list xs a)) ` set xs"
    by (metis (mono_tags, lifting) image_eqI prod.collapse)
next
  fix e assume "e \<in> (\<lambda>a. (a, count_list xs a)) ` set xs"
  then show "e \<in> set (Counter xs)"
    by (auto simp: Counter_member)
qed

lemma process_group_eq:
  assumes "allele_sizes \<noteq> []" and "resolve_locus_id loc mot = Inr resolved"
  shows "process_group loc mot allele_sizes by_sample =
     (case genotype_loop resolved mot by_sample [] of
        Inl e \<Rightarrow> Inl e
      | Inr genotype_counts \<Rightarrow>
          Inr (Some \<lparr>locus_id = resolved, motif = mot,
                 allele_size_histogram = allele_size_histogram_str (Counter (sort allele_sizes)),
                 biallelic_histogram = biallelic_histogram_str genotype_counts,
                 mode_allele = fst (hd (most_common_1 (Counter (sort allele_sizes)))),
                 mean = np_mean_3f (sort allele_sizes),
                 stdev = np_std_3f (sort allele_sizes),
                 median = np_median_int (sort allele_sizes),
                 percentile_99 = np_percentile_99_int (sort allele_sizes)\<rparr>))"
proof -
  have "sort allele_sizes \<noteq> []"
    using assms(1) by (metis length_sort length_0_conv)
  then have "Counter (sort allele_sizes) \<noteq> []"
    by (rule Counter_not_Nil)
  then obtain p ps where "Counter (sort allele_sizes) = p # ps"
    by (cases "Counter (sort allele_sizes)") auto
  with assms show ?thesis
    by (simp add: process_group_def most_common_1_def Let_def split: sum.splits prod.splits)
qed

lemma allele_size_entry_eq:
  "allele_size_entry = (\<lambda>e. str_int (fst e) @ ''x:'' @ str_nat (snd e))"
  by (rule ext) (simp add: allele_size_entry_def)

lemma genotype_entry_eq:
  "genotype_entry =
     (\<lambda>e. str_int (fst (fst e)) @ ''/'' @ str_int (snd (fst e)) @ '':'' @ str_nat (snd e))"
  by (rule ext) (simp add: genotype_entry_def)

lemma genotype_sort_key_eq: "genotype_sort_key = (\<lambda>e. (snd (fst e), fst (fst e)))"
  by (rule ext) (simp add: genotype_sort_key_def)

lemma sorted_map_fst: "sorted xs \<Longrightarrow> sorted (map fst xs)"
  for xs :: "('a :: linorder \<times> 'b :: linorder) list"
  by (induction xs) (auto simp: less_eq_prod_def)

lemma distinct_map_fst_sort_key:
  "distinct (map fst d) \<Longrightarrow> distinct (map fst (sort_key k d))"
  by (simp add: distinct_map)

lemma genotype_of_ordered:
  "length allele_list = 1 \<or> length allele_list = 2 \<Longrightarrow>
   fst (genotype_of allele_list) \<le> snd (genotype_of allele_list)"
  by (auto simp: genotype_of_def)

text \<open>
  The entries of the two histograms of a row that \<open>process_group\<close> writes: one per allele size,
  in ascending order of the size; and one per genotype, in ascending order of the larger and
  then of the smaller allele.
\<close>

lemma allele_size_entries:
  assumes "process_group loc mot allele_sizes by_sample = Inr (Some r)"
  shows "\<exists>entries.
           allele_size_histogram r =
             join '','' (map (\<lambda>e. str_int (fst e) @ ''x:'' @ str_nat (snd e)) entries) \<and>
           set entries = (\<lambda>a. (a, count_list allele_sizes a)) ` set allele_sizes \<and>
           sorted (map fst entries) \<and> distinct (map fst entries) \<and>
           sum_list (map snd entries) = length allele_sizes"
proof -
  let ?entries = "sort (Counter (sort allele_sizes))"
  from process_group_SomeD [OF assms]
  have "allele_size_histogram r = allele_size_histogram_str (Counter (sort allele_sizes))"
    by auto
  then have h: "allele_size_histogram r =
      join '','' (map (\<lambda>e. str_int (fst e) @ ''x:'' @ str_nat (snd e)) ?entries)"
    by (simp add: allele_size_histogram_str_def allele_size_entry_eq)
  have e: "set ?entries = (\<lambda>a. (a, count_list allele_sizes a)) ` set allele_sizes"
    by (simp add: set_Counter count_list_sort)
  have s: "sorted (map fst ?entries)"
    by (rule sorted_map_fst) simp
  have d: "distinct (map fst ?entries)"
    by (rule distinct_map_fst_sort_key) (rule distinct_Counter)
  have c: "sum_list (map snd ?entries) = length allele_sizes"
    by (simp add: sum_snd_sort sum_Counter)
  from h e s d c show ?thesis
    by blast
qed

lemma genotype_entries:
  assumes "process_group loc mot allele_sizes by_sample = Inr (Some r)"
  shows "\<exists>entries.
           biallelic_histogram r =
             join '',''
               (map (\<lambda>e. str_int (fst (fst e)) @ ''/'' @ str_int (snd (fst e)) @ '':'' @
                          str_nat (snd e)) entries) \<and>
           set entries =
             (\<lambda>g. (g, count_list (map (\<lambda>x. genotype_of (snd x)) by_sample) g)) `
                set (map (\<lambda>x. genotype_of (snd x)) by_sample) \<and>
           sorted (map (\<lambda>e. (snd (fst e), fst (fst e))) entries) \<and>
           distinct (map fst entries) \<and>
           (\<forall>e\<in>set entries. fst (fst e) \<le> snd (fst e)) \<and>
           sum_list (map snd entries) = length by_sample"
proof -
  let ?gs = "map (\<lambda>x. genotype_of (snd x)) by_sample"
  let ?entries = "sort_key genotype_sort_key (Counter ?gs)"
  from process_group_SomeD [OF assms] obtain resolved genotype_counts
    where loop: "genotype_loop resolved mot by_sample [] = Inr genotype_counts"
      and bh: "biallelic_histogram r = biallelic_histogram_str genotype_counts"
    by blast
  from loop have none: "find (\<lambda>x. length (snd x) \<noteq> 1 \<and> length (snd x) \<noteq> 2) by_sample = None"
    and gc: "genotype_counts = Counter ?gs"
    by (simp_all add: genotype_loop_eq Counter_def split: option.splits)
  from bh gc have h: "biallelic_histogram r =
      join '',''
        (map (\<lambda>e. str_int (fst (fst e)) @ ''/'' @ str_int (snd (fst e)) @ '':'' @
                   str_nat (snd e)) ?entries)"
    by (simp add: biallelic_histogram_str_def genotype_entry_eq)
  have e: "set ?entries = (\<lambda>g. (g, count_list ?gs g)) ` set ?gs"
    by (simp add: set_Counter)
  have "sorted (map genotype_sort_key ?entries)"
    by simp
  then have s: "sorted (map (\<lambda>e. (snd (fst e), fst (fst e))) ?entries)"
    by (simp add: genotype_sort_key_eq)
  have d: "distinct (map fst ?entries)"
    by (rule distinct_map_fst_sort_key) (rule distinct_Counter)
  have o: "\<forall>e\<in>set ?entries. fst (fst e) \<le> snd (fst e)"
  proof
    fix e assume "e \<in> set ?entries"
    then have "fst e \<in> set ?gs"
      using fst_set_Counter [of ?gs] by force
    then obtain x where x: "x \<in> set by_sample" and fe: "fst e = genotype_of (snd x)"
      by auto
    from none have "\<forall>y\<in>set by_sample. \<not> (length (snd y) \<noteq> 1 \<and> length (snd y) \<noteq> 2)"
      by (simp only: find_None_iff) blast
    with x have "length (snd x) = 1 \<or> length (snd x) = 2"
      by blast
    from genotype_of_ordered [OF this] fe show "fst (fst e) \<le> snd (fst e)"
      by simp
  qed
  have c: "sum_list (map snd ?entries) = length by_sample"
    by (simp add: sum_snd_sort sum_Counter)
  from h e s d o c show ?thesis
    by blast
qed

text \<open>
  C3, as the code has it. For a group with at least one allele size whose locus id resolves
  (lines 37--46 run before the loop over the samples, and an unresolvable locus id raises its
  own error there), the loop stops at the first sample, in the order in which the samples
  were first seen, whose allele list has neither one nor two entries: \<open>process_group\<close> then
  raises the error that names the number of alleles, the sample, the resolved locus id and
  the motif. Otherwise a row is written, and its \<open>biallelic_histogram\<close> is the comma-joined
  text of entries \<open>low/high:count\<close> with \<open>low \<le> high\<close>, one for every genotype that occurs among
  the samples (a single allele doubled, two alleles in ascending order), with the number of
  samples that have it, in strictly ascending order of the pair (high, low).
\<close>

theorem biallelic_histogram_of_group:
  assumes "allele_sizes \<noteq> []" and "resolve_locus_id loc mot = Inr resolved"
  shows "case find (\<lambda>x. length (snd x) \<noteq> 1 \<and> length (snd x) \<noteq> 2) by_sample of
           Some x \<Rightarrow>
             process_group loc mot allele_sizes by_sample =
               Inl (AlleleCount (length (snd x)) (fst x) resolved mot)
         | None \<Rightarrow>
             (\<exists>r entries.
                process_group loc mot allele_sizes by_sample = Inr (Some r) \<and>
                biallelic_histogram r =
                  join '',''
                    (map (\<lambda>e. str_int (fst (fst e)) @ ''/'' @ str_int (snd (fst e)) @ '':'' @
                               str_nat (snd e)) entries) \<and>
                set entries =
                  (\<lambda>g. (g, count_list (map (\<lambda>x. genotype_of (snd x)) by_sample) g)) `
                     set (map (\<lambda>x. genotype_of (snd x)) by_sample) \<and>
                sorted (map (\<lambda>e. (snd (fst e), fst (fst e))) entries) \<and>
                distinct (map fst entries) \<and>
                (\<forall>e\<in>set entries. fst (fst e) \<le> snd (fst e)))"
proof (cases "find (\<lambda>x. length (snd x) \<noteq> 1 \<and> length (snd x) \<noteq> 2) by_sample")
  case (Some x)
  then show ?thesis
    by (simp add: process_group_eq [OF assms] genotype_loop_eq)
next
  case None
  then have "genotype_loop resolved mot by_sample [] =
      Inr (Counter (map (\<lambda>x. genotype_of (snd x)) by_sample))"
    by (rule genotype_loop_Counter)
  then obtain r where r: "process_group loc mot allele_sizes by_sample = Inr (Some r)"
    by (simp add: process_group_eq [OF assms])
  from genotype_entries [OF r] r show ?thesis
    unfolding None option.case by blast
qed



section \<open>The loop: auxiliary facts\<close>

lemma step_malformed: "length (fields_of l) \<noteq> 4 \<Longrightarrow> step s n l = Inr s"
  by (simp add: step_def)

lemma step_same_key:
  assumes "length (fields_of l) = 4"
    and "previous_key s = None \<or> previous_key s = Some (key_of (fields_of l))"
  shows "step s n l =
    Inr (record_allele
           (s\<lparr>sample_ids := insert (fields_of l ! 2) (sample_ids s),
              current_key := Some (key_of (fields_of l)),
              previous_key := Some (key_of (fields_of l))\<rparr>)
           (fields_of l ! 2) (fields_of l ! 3))"
  using assms by (auto simp: step_def Let_def)

lemma step_key_changed:
  assumes "length (fields_of l) = 4" and "previous_key s = Some pk"
    and "key_of (fields_of l) \<noteq> pk"
  shows "step s n l =
    (case key_changed
            (s\<lparr>sample_ids := insert (fields_of l ! 2) (sample_ids s),
               current_key := Some (key_of (fields_of l))\<rparr>)
            n pk (key_of (fields_of l)) of
       Inl e \<Rightarrow> Inl e
     | Inr s3 \<Rightarrow> Inr (record_allele s3 (fields_of l ! 2) (fields_of l ! 3)))"
  using assms by (auto simp: step_def Let_def)

lemma run_loop_append:
  "run_loop s n (xs @ ys) =
     (case run_loop s n xs of Inl e \<Rightarrow> Inl e | Inr s' \<Rightarrow> run_loop s' (n + length xs) ys)"
  by (induction xs arbitrary: s n) (auto split: sum.splits)

lemma run_loop_snoc:
  "run_loop s n (xs @ [l]) =
     (case run_loop s n xs of
        Inl e \<Rightarrow> Inl e
      | Inr s' \<Rightarrow>
          (case step s' (n + length xs) l of Inl e \<Rightarrow> Inl (e, outfile s') | Inr s'' \<Rightarrow> Inr s''))"
  by (simp add: run_loop_append split: sum.splits)

lemma records_of_snoc:
  "records_of (pre @ [l]) =
     records_of pre @ (if length (fields_of l) = 4 then [fields_of l] else [])"
  by (simp add: records_of_def)

lemma keys_of_snoc:
  "keys_of (pre @ [l]) =
     keys_of pre @ (if length (fields_of l) = 4 then [key_of (fields_of l)] else [])"
  by (simp add: keys_of_def records_of_snoc)

lemma open_group_malformed: "length (fields_of l) \<noteq> 4 \<Longrightarrow> open_group (pre @ [l]) = open_group pre"
  by (simp add: open_group_def records_of_snoc)

lemma open_group_snoc:
  assumes "length (fields_of l) = 4"
  shows "open_group (pre @ [l]) =
     (if keys_of pre \<noteq> [] \<and> last (keys_of pre) = key_of (fields_of l) then open_group pre else [])
     @ [fields_of l]"
proof (cases "records_of pre = []")
  case True
  with assms show ?thesis
    by (simp add: open_group_def records_of_snoc keys_of_def)
next
  case False
  then have l: "last (keys_of pre) = key_of (last (records_of pre))"
    by (simp add: keys_of_def last_map)
  from False obtain r rs where rv: "rev (records_of pre) = r # rs" and r: "r = last (records_of pre)"
    by (metis rev_is_Nil_conv list.exhaust last_rev list.sel(1) rev_rev_ident hd_rev)
  show ?thesis
  proof (cases "key_of (last (records_of pre)) = key_of (fields_of l)")
    case True
    with assms False l show ?thesis
      by (simp add: open_group_def records_of_snoc keys_of_def)
  next
    case False
    have "takeWhile (\<lambda>fs. key_of fs = key_of (fields_of l)) (rev (records_of pre)) = []"
      unfolding rv using False r by simp
    with assms l False \<open>records_of pre \<noteq> []\<close> show ?thesis
      by (simp add: open_group_def records_of_snoc keys_of_def)
  qed
qed

lemma remdups_adj_snoc:
  "remdups_adj (xs @ [x]) = (if xs \<noteq> [] \<and> last xs = x then remdups_adj xs else remdups_adj xs @ [x])"
proof (cases xs rule: rev_cases)
  case Nil
  then show ?thesis by simp
next
  case (snoc ys y)
  then show ?thesis
    using remdups_adj_append_two [of ys y x]
    by (cases "remdups_adj (ys @ [y])" rule: rev_cases) auto
qed

lemma valid_records_snoc:
  "valid_records (rs @ [fs]) = valid_records rs @ (if py_int (fs ! 3) \<noteq> None then [fs] else [])"
  by (simp add: valid_records_def)

lemma valid_sizes_snoc:
  "valid_sizes (rs @ [fs]) =
     valid_sizes rs @ (case py_int (fs ! 3) of None \<Rightarrow> [] | Some v \<Rightarrow> [v])"
  by (auto simp: valid_sizes_def valid_records_def)

lemma map_fst_append_to:
  "map fst (append_to k v d) = (if k \<in> fst ` set d then map fst d else map fst d @ [k])"
  by (induction k v d rule: append_to.induct) (fastforce simp: image_iff)+

lemma open_group_no_records: "keys_of pre = [] \<Longrightarrow> open_group pre = []"
  by (simp add: keys_of_def open_group_def)

lemma fst_set_append_to: "fst ` set (append_to k v d) = insert k (fst ` set d)"
proof -
  have "set (map fst (append_to k v d)) = insert k (set (map fst d))"
    unfolding map_fst_append_to by auto
  then show ?thesis by simp
qed

lemma distinct_append_to: "distinct (map fst d) \<Longrightarrow> distinct (map fst (append_to k v d))"
  by (simp add: map_fst_append_to)

lemma samples_of_snoc:
  "samples_of (rs @ [fs]) =
     (case py_int (fs ! 3) of
        None \<Rightarrow> samples_of rs
      | Some v \<Rightarrow> append_to (fs ! 2) v (samples_of rs))"
  by (auto simp: samples_of_def valid_records_def)

lemma distinct_samples_of: "distinct (map fst (samples_of rs))"
proof (induction rs rule: rev_induct)
  case Nil
  then show ?case by (simp add: samples_of_def valid_records_def)
next
  case (snoc fs rs)
  then show ?case
    by (simp add: samples_of_snoc distinct_append_to split: option.splits)
qed

lemma fst_set_samples_of: "fst ` set (samples_of rs) = (\<lambda>fs. fs ! 2) ` set (valid_records rs)"
proof (induction rs rule: rev_induct)
  case Nil
  then show ?case by (simp add: samples_of_def valid_records_def)
next
  case (snoc fs rs)
  then show ?case
    by (auto simp: samples_of_snoc valid_records_snoc fst_set_append_to split: option.splits)
qed

lemma length_samples_of:
  "length (samples_of rs) = card ((\<lambda>fs. fs ! 2) ` set (valid_records rs))"
proof -
  have "card (set (map fst (samples_of rs))) = length (map fst (samples_of rs))"
    using distinct_samples_of by (rule distinct_card)
  then show ?thesis
    by (simp add: fst_set_samples_of)
qed

lemma record_allele_invariant:
  assumes f: "length (fields_of l) = 4"
    and pk: "previous_key s = Some (key_of (fields_of l))"
    and ck: "current_key s = previous_key s"
    and al: "alleles_for_current_key s = valid_sizes grp"
    and sa: "alleles_for_current_key_by_sample_id s = samples_of grp"
    and se: "previously_seen_keys s = set (butlast (remdups_adj (keys_of (pre @ [l]))))"
    and og: "open_group (pre @ [l]) = grp @ [fields_of l]"
  shows "loop_invariant (pre @ [l]) (record_allele s (fields_of l ! 2) (fields_of l ! 3))"
proof (cases "py_int (fields_of l ! 3)")
  case None
  with assms show ?thesis
    by (simp add: loop_invariant_def record_allele_def keys_of_snoc valid_sizes_snoc
        samples_of_snoc)
next
  case (Some v)
  with assms show ?thesis
    by (simp add: loop_invariant_def record_allele_def keys_of_snoc valid_sizes_snoc
        samples_of_snoc)
qed

lemma step_invariant:
  assumes inv: "loop_invariant pre s0" and st: "step s0 n l = Inr s"
  shows "loop_invariant (pre @ [l]) s"
proof (cases "length (fields_of l) = 4")
  case False
  with st have "s = s0" by (simp add: step_malformed)
  with inv False show ?thesis
    by (simp add: loop_invariant_def keys_of_snoc open_group_malformed)
next
  case f: True
  let ?k = "key_of (fields_of l)"
  from inv
  have i_pk: "previous_key s0 = (if keys_of pre = [] then None else Some (last (keys_of pre)))"
    and i_al: "alleles_for_current_key s0 = valid_sizes (open_group pre)"
    and i_sa: "alleles_for_current_key_by_sample_id s0 = samples_of (open_group pre)"
    and i_se: "previously_seen_keys s0 = set (butlast (remdups_adj (keys_of pre)))"
    by (simp_all add: loop_invariant_def)
  show ?thesis
  proof (cases "keys_of pre = [] \<or> last (keys_of pre) = ?k")
    case same: True
    let ?s1 = "s0\<lparr>sample_ids := insert (fields_of l ! 2) (sample_ids s0),
                  current_key := Some ?k, previous_key := Some ?k\<rparr>"
    from i_pk same have "previous_key s0 = None \<or> previous_key s0 = Some ?k"
      by (cases "keys_of pre = []") simp_all
    from step_same_key [OF f this] st
    have s: "s = record_allele ?s1 (fields_of l ! 2) (fields_of l ! 3)"
      by simp
    have og: "open_group (pre @ [l]) = open_group pre @ [fields_of l]"
      using same f by (auto simp: open_group_snoc open_group_no_records)
    have "remdups_adj (keys_of (pre @ [l])) =
        (if keys_of pre = [] then [?k] else remdups_adj (keys_of pre))"
      using same f by (cases "keys_of pre = []") (simp_all add: keys_of_snoc remdups_adj_snoc)
    then have "set (butlast (remdups_adj (keys_of (pre @ [l])))) =
        set (butlast (remdups_adj (keys_of pre)))"
      by (cases "keys_of pre = []") simp_all
    with i_se have se: "previously_seen_keys ?s1 = set (butlast (remdups_adj (keys_of (pre @ [l]))))"
      by simp
    show ?thesis
      unfolding s
      by (rule record_allele_invariant [OF f _ _ _ _ se og]) (simp_all add: i_al i_sa)
  next
    case changed: False
    then have ne: "keys_of pre \<noteq> []" and dk: "?k \<noteq> last (keys_of pre)"
      by auto
    let ?pk = "last (keys_of pre)"
    let ?s1 = "s0\<lparr>sample_ids := insert (fields_of l ! 2) (sample_ids s0),
                  current_key := Some ?k\<rparr>"
    from i_pk ne have pk: "previous_key s0 = Some ?pk"
      by simp
    from step_key_changed [OF f pk dk] st obtain s3
      where kc: "key_changed ?s1 n ?pk ?k = Inr s3"
        and s: "s = record_allele s3 (fields_of l ! 2) (fields_of l ! 3)"
      by (auto split: sum.splits)
    from kc obtain w where s3: "s3 = ?s1\<lparr>previously_seen_keys := insert ?pk (previously_seen_keys ?s1),
                    previous_key := Some ?k,
                    outfile := outfile ?s1 @ written w,
                    alleles_for_current_key := [],
                    alleles_for_current_key_by_sample_id := [],
                    output_lines := Suc (output_lines ?s1)\<rparr>"
      by (auto simp: key_changed_def split: if_splits sum.splits)
    have og: "open_group (pre @ [l]) = [] @ [fields_of l]"
      using dk f by (auto simp: open_group_snoc)
    have "remdups_adj (keys_of pre) \<noteq> []"
      using ne by simp
    then have "set (remdups_adj (keys_of pre)) = insert ?pk (set (butlast (remdups_adj (keys_of pre))))"
      by (metis append_butlast_last_id last_remdups_adj list.simps(15) set_append
          Un_insert_right sup_bot.right_neutral empty_set)
    then have se: "previously_seen_keys s3 = set (butlast (remdups_adj (keys_of (pre @ [l]))))"
      using i_se dk f ne by (simp add: s3 keys_of_snoc remdups_adj_snoc)
    show ?thesis
      unfolding s
      by (rule record_allele_invariant [OF f _ _ _ _ se og])
         (simp_all add: s3 valid_sizes_def valid_records_def samples_of_def)
  qed
qed

lemma run_loop_invariant: "run_loop init_state 1 pre = Inr s \<Longrightarrow> loop_invariant pre s"
proof (induction pre arbitrary: s rule: rev_induct)
  case Nil
  then show ?case
    by (auto simp: loop_invariant_def init_state_def keys_of_def records_of_def open_group_def
        valid_sizes_def valid_records_def samples_of_def)
next
  case (snoc l pre)
  from snoc.prems obtain s0
    where r0: "run_loop init_state 1 pre = Inr s0" and st: "step s0 (1 + length pre) l = Inr s"
    by (auto simp: run_loop_snoc split: sum.splits)
  from step_invariant [OF snoc.IH [OF r0] st] show ?case .
qed

section \<open>Where the rows of the output come from\<close>

lemma record_allele_outfile [simp]: "outfile (record_allele s sid a) = outfile s"
  by (simp add: record_allele_def split: option.splits)

lemma step_outfile:
  assumes "step s0 n l = Inr s"
  shows "outfile s = outfile s0 \<or>
    (\<exists>pk w. length (fields_of l) = 4 \<and> previous_key s0 = Some pk \<and> key_of (fields_of l) \<noteq> pk \<and>
       process_group (fst pk) (snd pk) (alleles_for_current_key s0)
         (alleles_for_current_key_by_sample_id s0) = Inr w \<and>
       outfile s = outfile s0 @ written w)"
proof (cases "length (fields_of l) = 4")
  case False
  with assms show ?thesis by (simp add: step_malformed)
next
  case f: True
  show ?thesis
  proof (cases "previous_key s0 = None \<or> previous_key s0 = Some (key_of (fields_of l))")
    case True
    from step_same_key [OF f True] assms show ?thesis by auto
  next
    case False
    then obtain pk where pk: "previous_key s0 = Some pk" and dk: "key_of (fields_of l) \<noteq> pk"
      by auto
    from step_key_changed [OF f pk dk] assms f pk dk show ?thesis
      by (auto simp: key_changed_def split: sum.splits if_splits)
  qed
qed

lemma outfile_rows_origin:
  assumes "run_loop init_state 1 lines = Inr s" and "r \<in> set (outfile s)"
  shows "\<exists>pre l rest s0. lines = pre @ l # rest \<and> run_loop init_state 1 pre = Inr s0 \<and>
           keys_of pre \<noteq> [] \<and> length (fields_of l) = 4 \<and>
           key_of (fields_of l) \<noteq> last (keys_of pre) \<and>
           process_group (fst (last (keys_of pre))) (snd (last (keys_of pre)))
             (alleles_for_current_key s0) (alleles_for_current_key_by_sample_id s0) = Inr (Some r)"
  using assms
proof (induction lines arbitrary: s rule: rev_induct)
  case Nil
  then show ?case by (auto simp: init_state_def)
next
  case (snoc l lines)
  from snoc.prems(1) obtain s0
    where r0: "run_loop init_state 1 lines = Inr s0" and st: "step s0 (1 + length lines) l = Inr s"
    by (auto simp: run_loop_snoc split: sum.splits)
  show ?case
  proof (cases "r \<in> set (outfile s0)")
    case True
    from snoc.IH [OF r0 True] obtain pre l' rest s1
      where "lines = pre @ l' # rest" and rest: "run_loop init_state 1 pre = Inr s1 \<and>
           keys_of pre \<noteq> [] \<and> length (fields_of l') = 4 \<and>
           key_of (fields_of l') \<noteq> last (keys_of pre) \<and>
           process_group (fst (last (keys_of pre))) (snd (last (keys_of pre)))
             (alleles_for_current_key s1) (alleles_for_current_key_by_sample_id s1) = Inr (Some r)"
      by blast
    then have "lines @ [l] = pre @ l' # (rest @ [l])"
      by simp
    with rest show ?thesis by blast
  next
    case False
    with step_outfile [OF st] snoc.prems(2) obtain pk w
      where f: "length (fields_of l) = 4" and pk: "previous_key s0 = Some pk"
        and dk: "key_of (fields_of l) \<noteq> pk"
        and pg: "process_group (fst pk) (snd pk) (alleles_for_current_key s0)
                   (alleles_for_current_key_by_sample_id s0) = Inr w"
        and out: "outfile s = outfile s0 @ written w"
      by auto
    from out False snoc.prems(2) have w: "w = Some r"
      by (cases w) (auto simp: written_def)
    from run_loop_invariant [OF r0] pk have "keys_of lines \<noteq> [] \<and> pk = last (keys_of lines)"
      by (auto simp: loop_invariant_def split: if_splits)
    with r0 f dk pg w show ?thesis
      by (intro exI [of _ lines] exI [of _ l] exI [of _ "[]"] exI [of _ s0]) simp
  qed
qed

lemma run_loop_abort_origin:
  assumes "run_loop init_state 1 lines = Inl (e, rows)"
  shows "\<exists>pre post s0. lines = pre @ post \<and> run_loop init_state 1 pre = Inr s0 \<and> rows = outfile s0"
  using assms
proof (induction lines rule: rev_induct)
  case Nil
  then show ?case by simp
next
  case (snoc l lines)
  show ?case
  proof (cases "run_loop init_state 1 lines")
    case (Inl x)
    with snoc.prems have "run_loop init_state 1 lines = Inl (e, rows)"
      by (simp add: run_loop_snoc)
    from snoc.IH [OF this] obtain pre post s0
      where "lines = pre @ post" "run_loop init_state 1 pre = Inr s0" "rows = outfile s0"
      by blast
    then have "lines @ [l] = pre @ (post @ [l]) \<and> run_loop init_state 1 pre = Inr s0 \<and> rows = outfile s0"
      by simp
    then show ?thesis by blast
  next
    case (Inr s')
    with snoc.prems have "rows = outfile s'"
      by (auto simp: run_loop_snoc split: sum.splits)
    with Inr show ?thesis
      by (intro exI [of _ lines] exI [of _ "[l]"] exI [of _ s']) simp
  qed
qed

text \<open>
  Every row that \<open>main\<close> writes is what \<open>process_group\<close> makes of the accumulators at the end
  of a whole group: after a prefix of the stream that is the whole stream or is followed by
  a record with another key.
\<close>

lemma main_rows_origin:
  assumes "r \<in> set (rows_written (main lines))"
  shows "\<exists>pre post s0. lines = pre @ post \<and> run_loop init_state 1 pre = Inr s0 \<and>
           keys_of pre \<noteq> [] \<and>
           (post = [] \<or> length (fields_of (hd post)) = 4 \<and>
                         key_of (fields_of (hd post)) \<noteq> last (keys_of pre)) \<and>
           process_group (fst (last (keys_of pre))) (snd (last (keys_of pre)))
             (alleles_for_current_key s0) (alleles_for_current_key_by_sample_id s0) = Inr (Some r)"
proof -
  have from_loop: ?thesis
    if run: "run_loop init_state 1 lines' = Inr s" and r: "r \<in> set (outfile s)"
      and app: "lines = lines' @ post'" for lines' post' s
  proof -
    from outfile_rows_origin [OF run r] obtain pre l rest s0
      where "lines' = pre @ l # rest" and rest: "run_loop init_state 1 pre = Inr s0 \<and>
           keys_of pre \<noteq> [] \<and> length (fields_of l) = 4 \<and>
           key_of (fields_of l) \<noteq> last (keys_of pre) \<and>
           process_group (fst (last (keys_of pre))) (snd (last (keys_of pre)))
             (alleles_for_current_key s0) (alleles_for_current_key_by_sample_id s0) = Inr (Some r)"
      by blast
    with app have "lines = pre @ (l # rest @ post')"
      by simp
    with rest show ?thesis
      by (intro exI [of _ pre] exI [of _ "l # rest @ post'"] exI [of _ s0]) simp
  qed
  show ?thesis
  proof (cases "run_loop init_state 1 lines")
    case (Inl x)
    obtain e rows where x: "x = (e, rows)" by (cases x)
    with Inl assms have r: "r \<in> set rows"
      by (simp add: main_def rows_written_def)
    from run_loop_abort_origin [OF Inl [unfolded x]] obtain pre post s0
      where "lines = pre @ post" "run_loop init_state 1 pre = Inr s0" "rows = outfile s0"
      by blast
    with r from_loop show ?thesis by blast
  next
    case (Inr s)
    show ?thesis
    proof (cases "r \<in> set (outfile s)")
      case True
      from from_loop [OF Inr True, of "[]"] show ?thesis by simp
    next
      case False
      with assms Inr obtain ck w where al: "alleles_for_current_key s \<noteq> []"
        and ck: "current_key s = Some ck"
        and pg: "process_group (fst ck) (snd ck) (alleles_for_current_key s)
                   (alleles_for_current_key_by_sample_id s) = Inr w"
        and rw: "r \<in> set (outfile s @ written w)"
        by (auto simp: main_def rows_written_def last_group_def Let_def
            split: if_splits option.splits sum.splits)
      from rw False have w: "w = Some r"
        by (cases w) (auto simp: written_def)
      from run_loop_invariant [OF Inr] ck have "keys_of lines \<noteq> [] \<and> ck = last (keys_of lines)"
        by (auto simp: loop_invariant_def split: if_splits)
      with Inr pg w show ?thesis
        by (intro exI [of _ lines] exI [of _ "[]"] exI [of _ s]) simp
    qed
  qed
qed

text \<open>
  Every row that \<open>main\<close> writes is the row that \<open>process_group\<close> makes of a whole group of the
  stream: of the valid allele sizes of the open group of a prefix that is the whole stream or
  is followed by a record with another key, under the key of that group.
\<close>

lemma main_rows_of_groups:
  assumes "r \<in> set (rows_written (main lines))"
  shows "\<exists>pre post. lines = pre @ post \<and> keys_of pre \<noteq> [] \<and>
           (post = [] \<or> length (fields_of (hd post)) = 4 \<and>
                         key_of (fields_of (hd post)) \<noteq> last (keys_of pre)) \<and>
           process_group (fst (last (keys_of pre))) (snd (last (keys_of pre)))
             (valid_sizes (open_group pre)) (samples_of (open_group pre)) = Inr (Some r)"
proof -
  from main_rows_origin [OF assms] obtain pre post s0
    where l: "lines = pre @ post" and run: "run_loop init_state 1 pre = Inr s0"
      and k: "keys_of pre \<noteq> []"
      and b: "post = [] \<or> length (fields_of (hd post)) = 4 \<and>
                key_of (fields_of (hd post)) \<noteq> last (keys_of pre)"
      and pg: "process_group (fst (last (keys_of pre))) (snd (last (keys_of pre)))
             (alleles_for_current_key s0) (alleles_for_current_key_by_sample_id s0) = Inr (Some r)"
    by blast
  from run_loop_invariant [OF run]
  have "alleles_for_current_key s0 = valid_sizes (open_group pre)"
    and "alleles_for_current_key_by_sample_id s0 = samples_of (open_group pre)"
    by (simp_all add: loop_invariant_def)
  with pg l k b show ?thesis
    by (intro exI [of _ pre] exI [of _ post]) simp
qed

text \<open>
  C8. Every row that a run writes, whether the run ends well or in an error, is the row of a
  whole group of the stream: the open group of a prefix \<open>pre\<close> that is the whole stream or is
  followed by a record with another key. It is what \<open>process_group\<close> makes of the valid allele
  sizes of that group; its locus id is the one the locus id of the group resolves to, its
  motif the motif of the group. Its \<open>allele_size_histogram\<close> is the comma-joined text of
  entries \<open>size x:count\<close>, one for every allele size of the group with the number of its
  occurrences, in ascending order of size, and the counts of these entries add up to the
  number of the group's records whose allele size is an integer.
\<close>

theorem allele_size_histogram_counts_valid_records:
  assumes "r \<in> set (rows_written (main lines))"
  shows "\<exists>pre post entries.
           lines = pre @ post \<and> keys_of pre \<noteq> [] \<and>
           (post = [] \<or> length (fields_of (hd post)) = 4 \<and>
                         key_of (fields_of (hd post)) \<noteq> last (keys_of pre)) \<and>
           process_group (fst (last (keys_of pre))) (snd (last (keys_of pre)))
             (valid_sizes (open_group pre)) (samples_of (open_group pre)) = Inr (Some r) \<and>
           resolve_locus_id (fst (last (keys_of pre))) (snd (last (keys_of pre))) =
             Inr (locus_id r) \<and>
           motif r = snd (last (keys_of pre)) \<and>
           allele_size_histogram r =
             join '','' (map (\<lambda>e. str_int (fst e) @ ''x:'' @ str_nat (snd e)) entries) \<and>
           set entries =
             (\<lambda>a. (a, count_list (valid_sizes (open_group pre)) a)) `
                set (valid_sizes (open_group pre)) \<and>
           sorted (map fst entries) \<and> distinct (map fst entries) \<and>
           sum_list (map snd entries) = length (valid_records (open_group pre))"
proof -
  from main_rows_of_groups [OF assms] obtain pre post
    where l: "lines = pre @ post" and k: "keys_of pre \<noteq> []"
      and b: "post = [] \<or> length (fields_of (hd post)) = 4 \<and>
                key_of (fields_of (hd post)) \<noteq> last (keys_of pre)"
      and pg: "process_group (fst (last (keys_of pre))) (snd (last (keys_of pre)))
             (valid_sizes (open_group pre)) (samples_of (open_group pre)) = Inr (Some r)"
    by blast
  from process_group_SomeD [OF pg]
  have lm: "resolve_locus_id (fst (last (keys_of pre))) (snd (last (keys_of pre))) =
             Inr (locus_id r) \<and> motif r = snd (last (keys_of pre))"
    by auto
  from allele_size_entries [OF pg] obtain entries
    where e: "allele_size_histogram r =
             join '','' (map (\<lambda>e. str_int (fst e) @ ''x:'' @ str_nat (snd e)) entries) \<and>
           set entries =
             (\<lambda>a. (a, count_list (valid_sizes (open_group pre)) a)) `
                set (valid_sizes (open_group pre)) \<and>
           sorted (map fst entries) \<and> distinct (map fst entries) \<and>
           sum_list (map snd entries) = length (valid_sizes (open_group pre))"
    by blast
  have "length (valid_sizes (open_group pre)) = length (valid_records (open_group pre))"
    by (simp add: valid_sizes_def)
  with l k b pg lm e show ?thesis
    by (intro exI [of _ pre] exI [of _ post] exI [of _ entries]) simp
qed

text \<open>
  C10. Every row that a run writes is the row of a whole group of the stream, as in C8. Its
  \<open>biallelic_histogram\<close> is the comma-joined text of entries \<open>low/high:count\<close>, one for every
  genotype among the samples of the group with the number of samples that have it, in
  ascending order of the pair (high, low), and the counts of these entries add up to the
  number of different sample ids among the group's records whose allele size is an integer:
  every such sample is counted once.
\<close>

theorem biallelic_histogram_counts_samples:
  assumes "r \<in> set (rows_written (main lines))"
  shows "\<exists>pre post entries.
           lines = pre @ post \<and> keys_of pre \<noteq> [] \<and>
           (post = [] \<or> length (fields_of (hd post)) = 4 \<and>
                         key_of (fields_of (hd post)) \<noteq> last (keys_of pre)) \<and>
           process_group (fst (last (keys_of pre))) (snd (last (keys_of pre)))
             (valid_sizes (open_group pre)) (samples_of (open_group pre)) = Inr (Some r) \<and>
           resolve_locus_id (fst (last (keys_of pre))) (snd (last (keys_of pre))) =
             Inr (locus_id r) \<and>
           motif r = snd (last (keys_of pre)) \<and>
           biallelic_histogram r =
             join '',''
               (map (\<lambda>e. str_int (fst (fst e)) @ ''/'' @ str_int (snd (fst e)) @ '':'' @
                          str_nat (snd e)) entries) \<and>
           set entries =
             (\<lambda>g. (g, count_list (map (\<lambda>x. genotype_of (snd x)) (samples_of (open_group pre))) g)) `
                set (map (\<lambda>x. genotype_of (snd x)) (samples_of (open_group pre))) \<and>
           sorted (map (\<lambda>e. (snd (fst e), fst (fst e))) entries) \<and>
           distinct (map fst entries) \<and>
           sum_list (map snd entries) =
             card ((\<lambda>fs. fs ! 2) ` set (valid_records (open_group pre)))"
proof -
  from main_rows_of_groups [OF assms] obtain pre post
    where l: "lines = pre @ post" and k: "keys_of pre \<noteq> []"
      and b: "post = [] \<or> length (fields_of (hd post)) = 4 \<and>
                key_of (fields_of (hd post)) \<noteq> last (keys_of pre)"
      and pg: "process_group (fst (last (keys_of pre))) (snd (last (keys_of pre)))
             (valid_sizes (open_group pre)) (samples_of (open_group pre)) = Inr (Some r)"
    by blast
  from process_group_SomeD [OF pg]
  have lm: "resolve_locus_id (fst (last (keys_of pre))) (snd (last (keys_of pre))) =
             Inr (locus_id r) \<and> motif r = snd (last (keys_of pre))"
    by auto
  from genotype_entries [OF pg] obtain entries
    where e: "biallelic_histogram r =
             join '',''
               (map (\<lambda>e. str_int (fst (fst e)) @ ''/'' @ str_int (snd (fst e)) @ '':'' @
                          str_nat (snd e)) entries) \<and>
           set entries =
             (\<lambda>g. (g, count_list (map (\<lambda>x. genotype_of (snd x)) (samples_of (open_group pre))) g)) `
                set (map (\<lambda>x. genotype_of (snd x)) (samples_of (open_group pre))) \<and>
           sorted (map (\<lambda>e. (snd (fst e), fst (fst e))) entries) \<and>
           distinct (map fst entries) \<and>
           sum_list (map snd entries) = length (samples_of (open_group pre))"
    by blast
  with l k b pg lm show ?thesis
    by (intro exI [of _ pre] exI [of _ post] exI [of _ entries])
       (simp add: length_samples_of)
qed


section \<open>The order of the duplicate check and the flush\<close>

lemma fst_key_of: "fst (key_of fs) = fs ! 0"
  by (simp add: key_of_def)

text \<open>
  C6, as the code has it. When a record's key differs from the previous key, the previous key
  is looked up in \<open>previously_seen_keys\<close> first. If it is there, the run stops with the
  sort-order error for this line, and the output file holds what it held before this line:
  no row is written for the group that repeats a key. Only if it is not there is the previous
  group processed: an error of \<open>process_group\<close> stops the run, and otherwise the key has been
  inserted and the row of the previous group, if it has one, is appended to the output.
\<close>

theorem key_change_checks_before_flush:
  assumes "length (fields_of l) = 4" and "previous_key s = Some pk"
    and "key_of (fields_of l) \<noteq> pk"
  shows "(pk \<in> previously_seen_keys s \<longrightarrow>
            run_loop s n (l # rest) = Inl (NotSorted n (fields_of l ! 0), outfile s)) \<and>
         (pk \<notin> previously_seen_keys s \<longrightarrow>
            (\<forall>e. process_group (fst pk) (snd pk) (alleles_for_current_key s)
                    (alleles_for_current_key_by_sample_id s) = Inl e \<longrightarrow>
                  run_loop s n (l # rest) = Inl (e, outfile s)) \<and>
            (\<forall>w. process_group (fst pk) (snd pk) (alleles_for_current_key s)
                    (alleles_for_current_key_by_sample_id s) = Inr w \<longrightarrow>
                  (\<exists>s'. step s n l = Inr s' \<and>
                        previously_seen_keys s' = insert pk (previously_seen_keys s) \<and>
                        outfile s' = outfile s @ written w)))"
  using step_key_changed [OF assms, of n]
  by (auto simp: key_changed_def fst_key_of record_allele_def split: option.splits)

text \<open>
  C9. A line with four fields whose allele size is not an integer goes through the change of
  key like any other record. Its sample id is added to \<open>sample_ids\<close> in every case. If its key
  is the previous key (or there is none yet), nothing else changes but the key variables. If
  its key differs from the previous key, the duplicate check is applied to the previous key
  (a sort-order error if it was seen before); otherwise the previous group is processed, its
  key is inserted into \<open>previously_seen_keys\<close>, the key of the invalid record becomes the
  previous key, and the new group starts with no allele size, the invalid record included.
\<close>

theorem invalid_record_changes_group:
  assumes "length (fields_of l) = 4" and "py_int (fields_of l ! 3) = None"
  shows "(previous_key s = None \<or> previous_key s = Some (key_of (fields_of l)) \<longrightarrow>
            step s n l = Inr (s\<lparr>sample_ids := insert (fields_of l ! 2) (sample_ids s),
                                current_key := Some (key_of (fields_of l)),
                                previous_key := Some (key_of (fields_of l))\<rparr>)) \<and>
         (\<forall>pk. previous_key s = Some pk \<and> key_of (fields_of l) \<noteq> pk \<longrightarrow>
            (pk \<in> previously_seen_keys s \<longrightarrow>
               step s n l = Inl (NotSorted n (fields_of l ! 0))) \<and>
            (pk \<notin> previously_seen_keys s \<longrightarrow>
               (\<forall>e. process_group (fst pk) (snd pk) (alleles_for_current_key s)
                       (alleles_for_current_key_by_sample_id s) = Inl e \<longrightarrow> step s n l = Inl e) \<and>
               (\<forall>w. process_group (fst pk) (snd pk) (alleles_for_current_key s)
                       (alleles_for_current_key_by_sample_id s) = Inr w \<longrightarrow>
                     step s n l =
                       Inr (s\<lparr>sample_ids := insert (fields_of l ! 2) (sample_ids s),
                              current_key := Some (key_of (fields_of l)),
                              previously_seen_keys := insert pk (previously_seen_keys s),
                              previous_key := Some (key_of (fields_of l)),
                              outfile := outfile s @ written w,
                              alleles_for_current_key := [],
                              alleles_for_current_key_by_sample_id := [],
                              output_lines := Suc (output_lines s)\<rparr>))))"
proof -
  have same: "step s n l = Inr (s\<lparr>sample_ids := insert (fields_of l ! 2) (sample_ids s),
                                current_key := Some (key_of (fields_of l)),
                                previous_key := Some (key_of (fields_of l))\<rparr>)"
    if "previous_key s = None \<or> previous_key s = Some (key_of (fields_of l))"
    using step_same_key [OF assms(1) that, of n] assms(2)
    by (simp add: record_allele_def)
  have changed: "(pk \<in> previously_seen_keys s \<longrightarrow>
               step s n l = Inl (NotSorted n (fields_of l ! 0))) \<and>
            (pk \<notin> previously_seen_keys s \<longrightarrow>
               (\<forall>e. process_group (fst pk) (snd pk) (alleles_for_current_key s)
                       (alleles_for_current_key_by_sample_id s) = Inl e \<longrightarrow> step s n l = Inl e) \<and>
               (\<forall>w. process_group (fst pk) (snd pk) (alleles_for_current_key s)
                       (alleles_for_current_key_by_sample_id s) = Inr w \<longrightarrow>
                     step s n l =
                       Inr (s\<lparr>sample_ids := insert (fields_of l ! 2) (sample_ids s),
                              current_key := Some (key_of (fields_of l)),
                              previously_seen_keys := insert pk (previously_seen_keys s),
                              previous_key := Some (key_of (fields_of l)),
                              outfile := outfile s @ written w,
                              alleles_for_current_key := [],
                              alleles_for_current_key_by_sample_id := [],
                              output_lines := Suc (output_lines s)\<rparr>)))"
    if "previous_key s = Some pk" and "key_of (fields_of l) \<noteq> pk" for pk
    using step_key_changed [OF assms(1) that, of n] assms(2)
    by (auto simp: key_changed_def fst_key_of record_allele_def)
  from same changed show ?thesis
    by blast
qed

text \<open>
  C5, as the code has it. Let the lines \<open>pre\<close> have been read without an error, and let the key
  of the open group be the key of an earlier group that is not adjacent to it. If the next
  line is a record with another key, the run stops there with the sort-order error that
  cites the number of that line and its locus id, and the open group's row is not written.
  If \<open>pre\<close> is the whole stream, the open group has at least one allele size and
  \<open>process_group\<close> raises no error on it, the run stops after the row of the open group is
  written, with the sort-order error that cites the number of the last line.
\<close>

theorem reappearing_key_aborts:
  assumes run: "run_loop init_state 1 pre = Inr s"
    and ne: "keys_of pre \<noteq> []"
    and dup: "last (keys_of pre) \<in> set (butlast (remdups_adj (keys_of pre)))"
  shows "(length (fields_of l) = 4 \<and> key_of (fields_of l) \<noteq> last (keys_of pre) \<longrightarrow>
            main (pre @ l # post) =
              Inl (NotSorted (Suc (length pre)) (fields_of l ! 0), outfile s)) \<and>
         (alleles_for_current_key s \<noteq> [] \<longrightarrow>
            (\<forall>w. process_group (fst (last (keys_of pre))) (snd (last (keys_of pre)))
                    (alleles_for_current_key s) (alleles_for_current_key_by_sample_id s) = Inr w \<longrightarrow>
                  main pre =
                    Inl (NotSorted (length pre) (fst (last (keys_of pre))), outfile s @ written w)))"
proof -
  from run_loop_invariant [OF run] ne dup
  have pk: "previous_key s = Some (last (keys_of pre))"
    and ck: "current_key s = Some (last (keys_of pre))"
    and seen: "last (keys_of pre) \<in> previously_seen_keys s"
    by (simp_all add: loop_invariant_def)
  have mid: "main (pre @ l # post) = Inl (NotSorted (Suc (length pre)) (fields_of l ! 0), outfile s)"
    if f: "length (fields_of l) = 4" and dk: "key_of (fields_of l) \<noteq> last (keys_of pre)"
  proof -
    from step_key_changed [OF f pk dk, of "Suc (length pre)"] seen
    have "step s (Suc (length pre)) l = Inl (NotSorted (Suc (length pre)) (fields_of l ! 0))"
      by (simp add: key_changed_def fst_key_of)
    then have "run_loop init_state 1 (pre @ l # post) =
        Inl (NotSorted (Suc (length pre)) (fields_of l ! 0), outfile s)"
      using run by (simp add: run_loop_append)
    then show ?thesis
      by (simp add: main_def)
  qed
  have fin: "main pre = Inl (NotSorted (length pre) (fst (last (keys_of pre))), outfile s @ written w)"
    if "alleles_for_current_key s \<noteq> []"
      and "process_group (fst (last (keys_of pre))) (snd (last (keys_of pre)))
             (alleles_for_current_key s) (alleles_for_current_key_by_sample_id s) = Inr w" for w
    using that run ck seen by (simp add: main_def last_group_def)
  from mid fin show ?thesis
    by blast
qed

section \<open>The worked example\<close>

lemma fields_of_example:
  "fields_of (tsv_line [''L1'', ''A'', ''S1'', ''10'']) = [''L1'', ''A'', ''S1'', ''10'']"
  "fields_of (tsv_line [''L1'', ''A'', ''S1'', ''12'']) = [''L1'', ''A'', ''S1'', ''12'']"
  "fields_of (tsv_line [''L1'', ''A'', ''S2'', ''10'']) = [''L1'', ''A'', ''S2'', ''10'']"
  by (simp_all add: fields_of_def tsv_line_def strip_def is_space_def)

lemma py_int_example: "py_int ''10'' = Some 10" "py_int ''12'' = Some 12"
  by (simp_all add: py_int_def is_int_space_def max_str_digits_def is_digit_def)

lemma process_group_example:
  "process_group ''L1'' ''A'' [10, 12, 10] [(''S1'', [10, 12]), (''S2'', [10])] =
     Inr (Some \<lparr>locus_id = ''L1'', motif = ''A'',
       allele_size_histogram = ''10x:2,12x:1'',
       biallelic_histogram = ''10/10:1,10/12:1'', mode_allele = 10,
       mean = ''10.667'', stdev = np_std_3f [10, 10, 12], median = 10,
       percentile_99 = 11\<rparr>)"
  by (simp add: process_group_def resolve_locus_id_def Counter_def most_common_1_def
      sorted_pair_def allele_size_histogram_str_def allele_size_entry_def
      biallelic_histogram_str_def genotype_entry_def genotype_sort_key_def np_mean_3f_def
      format_3f_def round_thousandths_def pad3_def np_median_int_def np_percentile_99_int_def
      int_trunc_def eval_simps Let_def)

text \<open>
  C1. The stream of the three rows (L1, A, S1, 10), (L1, A, S1, 12), (L1, A, S2, 10) runs to
  its end without an error and writes exactly one row: locus id L1, motif A, allele-size
  histogram \<open>10x:2,12x:1\<close>, genotype histogram \<open>10/10:1,10/12:1\<close> (sample S1 has the pair
  (10, 12), sample S2 has one allele, doubled to (10, 10)), mode 10, mean \<open>10.667\<close>, median 10
  and 99th percentile 11 (the interpolated value 11.96, truncated). The standard deviation,
  which is not part of the example, is left as the term that computes it.
\<close>

theorem example_three_rows:
  "main [tsv_line [''L1'', ''A'', ''S1'', ''10''],
         tsv_line [''L1'', ''A'', ''S1'', ''12''],
         tsv_line [''L1'', ''A'', ''S2'', ''10'']] =
     Inr \<lparr>previous_key = Some (''L1'', ''A''), previously_seen_keys = {},
       alleles_for_current_key = [10, 12, 10],
       alleles_for_current_key_by_sample_id = [(''S1'', [10, 12]), (''S2'', [10])],
       sample_ids = {''S2'', ''S1''}, output_lines = 1, current_key = Some (''L1'', ''A''),
       outfile = [\<lparr>locus_id = ''L1'', motif = ''A'',
         allele_size_histogram = ''10x:2,12x:1'',
         biallelic_histogram = ''10/10:1,10/12:1'', mode_allele = 10,
         mean = ''10.667'', stdev = np_std_3f [10, 10, 12], median = 10,
         percentile_99 = 11\<rparr>]\<rparr>"
  by (simp add: main_def step_def fields_of_example key_of_def init_state_def
      record_allele_def py_int_example last_group_def process_group_example written_def
      key_changed_def Let_def)

text \<open>
  C2 on the group of the worked example.
\<close>

theorem mode_allele_smallest_most_frequent_witness:
  "process_group ''L1'' ''A'' [10, 12, 10] [(''S1'', [10, 12]), (''S2'', [10])] =
     Inr (Some \<lparr>locus_id = ''L1'', motif = ''A'',
       allele_size_histogram = ''10x:2,12x:1'',
       biallelic_histogram = ''10/10:1,10/12:1'', mode_allele = 10,
       mean = ''10.667'', stdev = np_std_3f [10, 10, 12], median = 10,
       percentile_99 = 11\<rparr>) \<and>
   Min {a \<in> set [10, 12, 10 :: int].
        count_list [10, 12, 10 :: int] a =
          Max (count_list [10, 12, 10 :: int] ` set [10, 12, 10 :: int])} = 10"
  using mode_allele_smallest_most_frequent [OF process_group_example]
  by (simp add: process_group_example)

lemma split_on_example:
  "split_on CHR '','' ''1-5-9-T,1-20-29-A,1-40-49-A'' = [''1-5-9-T'', ''1-20-29-A'', ''1-40-49-A'']"
  by simp




text \<open>
  C3 on a group in which sample S2 has three alleles, and on a group of three samples with
  the genotypes (1, 10), (5, 6) and (5, 6): the entry of (5, 6) comes first, since 6 is less
  than 10.
\<close>

theorem biallelic_histogram_of_group_witness:
  "[1, 10, 6, 5, 5, 6 :: int] \<noteq> [] \<and> resolve_locus_id ''L1'' ''A'' = Inr ''L1'' \<and>
   process_group ''L1'' ''A'' [1, 10, 6, 5, 5, 6] [(''S1'', [1, 10]), (''S2'', [1, 2, 3])] =
     Inl (AlleleCount 3 ''S2'' ''L1'' ''A'') \<and>
   map_sum id (map_option biallelic_histogram)
     (process_group ''L1'' ''A'' [1, 10, 6, 5, 5, 6]
        [(''S1'', [1, 10]), (''S2'', [6, 5]), (''S3'', [5, 6])]) =
     Inr (Some ''5/6:2,1/10:1'')"
proof -
  have ne: "[1, 10, 6, 5, 5, 6 :: int] \<noteq> []"
    by simp
  have res: "resolve_locus_id ''L1'' ''A'' = Inr ''L1''"
    by (simp add: resolve_locus_id_def)
  from biallelic_histogram_of_group [OF ne res, of "[(''S1'', [1, 10]), (''S2'', [1, 2, 3])]"]
  have bad: "process_group ''L1'' ''A'' [1, 10, 6, 5, 5, 6] [(''S1'', [1, 10]), (''S2'', [1, 2, 3])] =
     Inl (AlleleCount 3 ''S2'' ''L1'' ''A'')"
    by simp
  have good: "map_sum id (map_option biallelic_histogram)
     (process_group ''L1'' ''A'' [1, 10, 6, 5, 5, 6]
        [(''S1'', [1, 10]), (''S2'', [6, 5]), (''S3'', [5, 6])]) =
     Inr (Some ''5/6:2,1/10:1'')"
    by (simp add: process_group_def resolve_locus_id_def Counter_def most_common_1_def
        sorted_pair_def biallelic_histogram_str_def genotype_entry_def genotype_sort_key_def
        eval_simps Let_def)
  from ne res bad good show ?thesis
    by (intro conjI)
qed

section \<open>The theorems at concrete streams\<close>

lemmas line_eval = fields_of_def tsv_line_def strip_def is_space_def py_int_def
  is_int_space_def max_str_digits_def is_digit_def

lemmas process_group_eval = process_group_def resolve_locus_id_def Counter_def most_common_1_def
  sorted_pair_def allele_size_histogram_str_def allele_size_entry_def
  biallelic_histogram_str_def genotype_entry_def genotype_sort_key_def np_mean_3f_def
  format_3f_def round_thousandths_def pad3_def np_median_int_def np_percentile_99_int_def
  int_trunc_def eval_simps Let_def

lemmas main_eval = main_def step_def key_of_def init_state_def record_allele_def
  last_group_def written_def key_changed_def Let_def

lemmas example_defs = row_K1_def row_K2_def row_K1_again_def state_after_1_def
  state_after_3_def row_L1_def row_L2_def

lemma run_loop_1: "run_loop init_state 1 (take 1 reappearing_stream) = Inr state_after_1"
  by (simp add: reappearing_stream_def example_defs main_eval process_group_eval line_eval)

lemma run_loop_3: "run_loop init_state 1 (take 3 reappearing_stream) = Inr state_after_3"
  by (simp add: reappearing_stream_def example_defs main_eval process_group_eval line_eval)

lemma keys_of_3:
  "keys_of (take 3 reappearing_stream) = [(''K1'', ''A''), (''K2'', ''A''), (''K1'', ''A'')]"
  by (simp add: reappearing_stream_def keys_of_def records_of_def key_of_def line_eval)

lemma fields_of_line_4:
  "fields_of (tsv_line [''K3'', ''A'', ''S2'', ''10'']) = [''K3'', ''A'', ''S2'', ''10'']"
  by (simp add: line_eval)

lemma process_group_K1: "process_group ''K1'' ''A'' [10] [(''S1'', [10])] = Inr (Some row_K1)"
  by (simp add: example_defs process_group_eval)

lemma process_group_K1_again: "process_group ''K1'' ''A'' [99] [(''S2'', [99])] = Inr (Some row_K1_again)"
  by (simp add: example_defs process_group_eval)

lemma main_reappearing:
  "main reappearing_stream = Inl (NotSorted 4 ''K3'', [row_K1, row_K2])"
  by (simp add: reappearing_stream_def example_defs main_eval process_group_eval line_eval)

lemma main_reappearing_last:
  "main (take 3 reappearing_stream) = Inl (NotSorted 3 ''K1'', [row_K1, row_K2, row_K1_again])"
  by (simp add: reappearing_stream_def example_defs main_eval process_group_eval line_eval)

lemma rows_two_groups: "rows_written (main two_groups_stream) = [row_L1, row_L2]"
  by (simp add: two_groups_stream_def rows_written_def example_defs main_eval process_group_eval
      line_eval)

lemma fields_of_invalid:
  "fields_of (tsv_line [''K2'', ''A'', ''S2'', ''NA'']) = [''K2'', ''A'', ''S2'', ''NA'']"
  "fields_of (tsv_line [''K1'', ''A'', ''S2'', [CHR 0x1C, CHR ''7'']]) =
     [''K1'', ''A'', ''S2'', [CHR 0x1C, CHR ''7'']]"
  "fields_of (tsv_line [''K3'', ''A'', ''S9'', ''NA'']) = [''K3'', ''A'', ''S9'', ''NA'']"
  "fields_of (tsv_line [''K2'', ''A'', ''S1'', ''12'']) = [''K2'', ''A'', ''S1'', ''12'']"
  by (simp_all add: line_eval)

lemma length_reappearing: "length reappearing_stream = 4"
  by (simp add: reappearing_stream_def)

lemma py_int_NA: "py_int ''NA'' = None"
  by (simp add: line_eval)

lemma py_int_separator: "py_int [CHR 0x1C, CHR ''7''] = None"
  by (simp add: line_eval)

text \<open>
  C5 on the stream K1, K2, K1 followed by a record of K3, and on the stream K1, K2, K1 alone.
\<close>

theorem reappearing_key_aborts_witness:
  "run_loop init_state 1 (take 3 reappearing_stream) = Inr state_after_3 \<and>
   keys_of (take 3 reappearing_stream) \<noteq> [] \<and>
   last (keys_of (take 3 reappearing_stream)) \<in>
     set (butlast (remdups_adj (keys_of (take 3 reappearing_stream)))) \<and>
   length (fields_of (tsv_line [''K3'', ''A'', ''S2'', ''10''])) = 4 \<and>
   key_of (fields_of (tsv_line [''K3'', ''A'', ''S2'', ''10''])) \<noteq>
     last (keys_of (take 3 reappearing_stream)) \<and>
   main (take 3 reappearing_stream @ [tsv_line [''K3'', ''A'', ''S2'', ''10'']]) =
     Inl (NotSorted 4 ''K3'', [row_K1, row_K2]) \<and>
   alleles_for_current_key state_after_3 \<noteq> [] \<and>
   main (take 3 reappearing_stream) =
     Inl (NotSorted 3 ''K1'', [row_K1, row_K2, row_K1_again])"
proof -
  have ne: "keys_of (take 3 reappearing_stream) \<noteq> []"
    by (simp add: keys_of_3)
  have dup: "last (keys_of (take 3 reappearing_stream)) \<in>
     set (butlast (remdups_adj (keys_of (take 3 reappearing_stream))))"
    by (simp add: keys_of_3)
  have f: "length (fields_of (tsv_line [''K3'', ''A'', ''S2'', ''10''])) = 4"
    by (simp add: fields_of_line_4)
  have dk: "key_of (fields_of (tsv_line [''K3'', ''A'', ''S2'', ''10''])) \<noteq>
     last (keys_of (take 3 reappearing_stream))"
    by (simp add: fields_of_line_4 keys_of_3 key_of_def)
  have al: "alleles_for_current_key state_after_3 \<noteq> []"
    by (simp add: state_after_3_def)
  have pg: "process_group (fst (last (keys_of (take 3 reappearing_stream))))
       (snd (last (keys_of (take 3 reappearing_stream)))) (alleles_for_current_key state_after_3)
       (alleles_for_current_key_by_sample_id state_after_3) = Inr (Some row_K1_again)"
    by (simp add: keys_of_3 state_after_3_def process_group_K1_again)
  note w = reappearing_key_aborts [OF run_loop_3 ne dup,
      of "tsv_line [''K3'', ''A'', ''S2'', ''10'']" "[]"]
  from w f dk
  have m1: "main (take 3 reappearing_stream @ [tsv_line [''K3'', ''A'', ''S2'', ''10'']]) =
     Inl (NotSorted 4 ''K3'', [row_K1, row_K2])"
    by (simp add: fields_of_line_4 state_after_3_def length_reappearing)
  from w al pg
  have m2: "main (take 3 reappearing_stream) =
     Inl (NotSorted 3 ''K1'', [row_K1, row_K2, row_K1_again])"
    by (simp add: keys_of_3 state_after_3_def written_def length_reappearing)
  from run_loop_3 ne dup f dk m1 al m2 show ?thesis
    by (intro conjI)
qed

text \<open>
  C5, as stated, fails on two streams in which the key (K1, A) comes back after the group
  (K2, A). In the first the repeated group is the last one and its only record has no integer
  allele size: the run ends without any error. In the second the repeated group is the last
  one and a sample has three alleles: the run stops with the error about the number of
  alleles, raised by \<open>process_group\<close> before the key is looked up.
\<close>

theorem reappearing_key_without_sort_error:
  "main [tsv_line [''K1'', ''A'', ''S1'', ''10''],
         tsv_line [''K2'', ''A'', ''S1'', ''12''],
         tsv_line [''K1'', ''A'', ''S2'', ''NA'']] =
     Inr \<lparr>previous_key = Some (''K1'', ''A''),
          previously_seen_keys = {(''K2'', ''A''), (''K1'', ''A'')},
          alleles_for_current_key = [], alleles_for_current_key_by_sample_id = [],
          sample_ids = {''S2'', ''S1''}, output_lines = 2, current_key = Some (''K1'', ''A''),
          outfile = [row_K1, row_K2]\<rparr> \<and>
   main [tsv_line [''K1'', ''A'', ''S1'', ''10''],
         tsv_line [''K2'', ''A'', ''S1'', ''12''],
         tsv_line [''K1'', ''A'', ''S2'', ''1''],
         tsv_line [''K1'', ''A'', ''S2'', ''2''],
         tsv_line [''K1'', ''A'', ''S2'', ''3'']] =
     Inl (AlleleCount 3 ''S2'' ''K1'' ''A'', [row_K1, row_K2])"
  by (simp add: example_defs main_eval process_group_eval line_eval)

text \<open>
  C6, as stated, fails on the stream K1, K2, K1, K3: the run stops on line 4 with the
  sort-order error, and the output holds the rows of the first two groups only. The row that
  \<open>process_group\<close> would write for the repeated group is not among them.
\<close>

theorem violation_aborts_before_flush:
  "main reappearing_stream = Inl (NotSorted 4 ''K3'', [row_K1, row_K2]) \<and>
   process_group ''K1'' ''A'' [99] [(''S2'', [99])] = Inr (Some row_K1_again) \<and>
   row_K1_again \<notin> set [row_K1, row_K2]"
  by (simp add: main_reappearing process_group_K1_again)
     (simp add: example_defs)

text \<open>
  C6 on line 4 of the stream K1, K2, K1, K3 (the previous key was seen before) and on line 2
  (it was not).
\<close>

theorem key_change_checks_before_flush_witness:
  "length (fields_of (tsv_line [''K3'', ''A'', ''S2'', ''10''])) = 4 \<and>
   previous_key state_after_3 = Some (''K1'', ''A'') \<and>
   key_of (fields_of (tsv_line [''K3'', ''A'', ''S2'', ''10''])) \<noteq> (''K1'', ''A'') \<and>
   (''K1'', ''A'') \<in> previously_seen_keys state_after_3 \<and>
   run_loop state_after_3 4 [tsv_line [''K3'', ''A'', ''S2'', ''10'']] =
     Inl (NotSorted 4 ''K3'', [row_K1, row_K2]) \<and>
   length (fields_of (tsv_line [''K2'', ''A'', ''S1'', ''12''])) = 4 \<and>
   previous_key state_after_1 = Some (''K1'', ''A'') \<and>
   key_of (fields_of (tsv_line [''K2'', ''A'', ''S1'', ''12''])) \<noteq> (''K1'', ''A'') \<and>
   (''K1'', ''A'') \<notin> previously_seen_keys state_after_1 \<and>
   (\<exists>s'. step state_after_1 2 (tsv_line [''K2'', ''A'', ''S1'', ''12'']) = Inr s' \<and>
         previously_seen_keys s' = {(''K1'', ''A'')} \<and> outfile s' = [row_K1])"
proof -
  have a1: "length (fields_of (tsv_line [''K3'', ''A'', ''S2'', ''10''])) = 4"
    by (simp add: fields_of_line_4)
  have a2: "previous_key state_after_3 = Some (''K1'', ''A'')"
    by (simp add: state_after_3_def)
  have a3: "key_of (fields_of (tsv_line [''K3'', ''A'', ''S2'', ''10''])) \<noteq> (''K1'', ''A'')"
    by (simp add: fields_of_line_4 key_of_def)
  have a4: "(''K1'', ''A'') \<in> previously_seen_keys state_after_3"
    by (simp add: state_after_3_def)
  from key_change_checks_before_flush [OF a1 a2 a3, of 4 "[]"] a4
  have a5: "run_loop state_after_3 4 [tsv_line [''K3'', ''A'', ''S2'', ''10'']] =
     Inl (NotSorted 4 ''K3'', [row_K1, row_K2])"
    by (simp add: fields_of_line_4 state_after_3_def)
  have b1: "length (fields_of (tsv_line [''K2'', ''A'', ''S1'', ''12''])) = 4"
    by (simp add: fields_of_invalid)
  have b2: "previous_key state_after_1 = Some (''K1'', ''A'')"
    by (simp add: state_after_1_def)
  have b3: "key_of (fields_of (tsv_line [''K2'', ''A'', ''S1'', ''12''])) \<noteq> (''K1'', ''A'')"
    by (simp add: fields_of_invalid key_of_def)
  have b4: "(''K1'', ''A'') \<notin> previously_seen_keys state_after_1"
    by (simp add: state_after_1_def)
  have pg: "process_group (fst (''K1'', ''A'')) (snd (''K1'', ''A''))
       (alleles_for_current_key state_after_1)
       (alleles_for_current_key_by_sample_id state_after_1) = Inr (Some row_K1)"
    by (simp add: state_after_1_def process_group_K1)
  from key_change_checks_before_flush [OF b1 b2 b3, of 2 "[]"] b4 pg
  have "\<exists>s'. step state_after_1 2 (tsv_line [''K2'', ''A'', ''S1'', ''12'']) = Inr s' \<and>
         previously_seen_keys s' = insert (''K1'', ''A'') (previously_seen_keys state_after_1) \<and>
         outfile s' = outfile state_after_1 @ written (Some row_K1)"
    by blast
  then have b5: "\<exists>s'. step state_after_1 2 (tsv_line [''K2'', ''A'', ''S1'', ''12'']) = Inr s' \<and>
         previously_seen_keys s' = {(''K1'', ''A'')} \<and> outfile s' = [row_K1]"
    by (simp add: state_after_1_def written_def)
  from a1 a2 a3 a4 a5 b1 b2 b3 b4 b5 show ?thesis
    by (intro conjI)
qed

text \<open>
  C9 on a record without an integer allele size that changes the key, on one that keeps it
  (its allele size is \<open>7\<close> after the character 0x1C, which \<open>int\<close> refuses), and on one that
  changes it after a repeated group.
\<close>

theorem invalid_record_changes_group_witness:
  "length (fields_of (tsv_line [''K2'', ''A'', ''S2'', ''NA''])) = 4 \<and>
   py_int (fields_of (tsv_line [''K2'', ''A'', ''S2'', ''NA'']) ! 3) = None \<and>
   step state_after_1 2 (tsv_line [''K2'', ''A'', ''S2'', ''NA'']) =
     Inr \<lparr>previous_key = Some (''K2'', ''A''), previously_seen_keys = {(''K1'', ''A'')},
          alleles_for_current_key = [], alleles_for_current_key_by_sample_id = [],
          sample_ids = {''S2'', ''S1''}, output_lines = 1, current_key = Some (''K2'', ''A''),
          outfile = [row_K1]\<rparr> \<and>
   py_int (fields_of (tsv_line [''K1'', ''A'', ''S2'', [CHR 0x1C, CHR ''7'']]) ! 3) = None \<and>
   step state_after_1 2 (tsv_line [''K1'', ''A'', ''S2'', [CHR 0x1C, CHR ''7'']]) =
     Inr \<lparr>previous_key = Some (''K1'', ''A''), previously_seen_keys = {},
          alleles_for_current_key = [10],
          alleles_for_current_key_by_sample_id = [(''S1'', [10])],
          sample_ids = {''S2'', ''S1''}, output_lines = 0, current_key = Some (''K1'', ''A''),
          outfile = []\<rparr> \<and>
   step state_after_3 4 (tsv_line [''K3'', ''A'', ''S9'', ''NA'']) = Inl (NotSorted 4 ''K3'')"
proof -
  have a1: "length (fields_of (tsv_line [''K2'', ''A'', ''S2'', ''NA''])) = 4"
    by (simp add: fields_of_invalid)
  have a2: "py_int (fields_of (tsv_line [''K2'', ''A'', ''S2'', ''NA'']) ! 3) = None"
    by (simp add: fields_of_invalid py_int_NA)
  have b1: "length (fields_of (tsv_line [''K1'', ''A'', ''S2'', [CHR 0x1C, CHR ''7'']])) = 4"
    by (simp add: fields_of_invalid)
  have b2: "py_int (fields_of (tsv_line [''K1'', ''A'', ''S2'', [CHR 0x1C, CHR ''7'']]) ! 3) = None"
    by (simp add: fields_of_invalid py_int_separator)
  have c1: "length (fields_of (tsv_line [''K3'', ''A'', ''S9'', ''NA''])) = 4"
    by (simp add: fields_of_invalid)
  have c2: "py_int (fields_of (tsv_line [''K3'', ''A'', ''S9'', ''NA'']) ! 3) = None"
    by (simp add: fields_of_invalid py_int_NA)
  from invalid_record_changes_group [OF a1 a2, of state_after_1 2]
  have a3: "step state_after_1 2 (tsv_line [''K2'', ''A'', ''S2'', ''NA'']) =
     Inr \<lparr>previous_key = Some (''K2'', ''A''), previously_seen_keys = {(''K1'', ''A'')},
          alleles_for_current_key = [], alleles_for_current_key_by_sample_id = [],
          sample_ids = {''S2'', ''S1''}, output_lines = 1, current_key = Some (''K2'', ''A''),
          outfile = [row_K1]\<rparr>"
    by (simp add: fields_of_invalid key_of_def state_after_1_def process_group_K1 written_def)
  from invalid_record_changes_group [OF b1 b2, of state_after_1 2]
  have b3: "step state_after_1 2 (tsv_line [''K1'', ''A'', ''S2'', [CHR 0x1C, CHR ''7'']]) =
     Inr \<lparr>previous_key = Some (''K1'', ''A''), previously_seen_keys = {},
          alleles_for_current_key = [10],
          alleles_for_current_key_by_sample_id = [(''S1'', [10])],
          sample_ids = {''S2'', ''S1''}, output_lines = 0, current_key = Some (''K1'', ''A''),
          outfile = []\<rparr>"
    by (simp add: fields_of_invalid key_of_def state_after_1_def)
  from invalid_record_changes_group [OF c1 c2, of state_after_3 4]
  have c3: "step state_after_3 4 (tsv_line [''K3'', ''A'', ''S9'', ''NA'']) = Inl (NotSorted 4 ''K3'')"
    by (simp add: fields_of_invalid key_of_def state_after_3_def)
  from a1 a2 a3 b2 b3 c3 show ?thesis
    by (intro conjI)
qed

lemma open_group_two_groups:
  "valid_sizes (open_group (take 6 two_groups_stream)) = [10, 12, 10]"
  "samples_of (open_group (take 6 two_groups_stream)) = [(''S1'', [10, 12]), (''S2'', [10])]"
  "length (valid_records (open_group (take 6 two_groups_stream))) = 3"
  "(\<lambda>fs. fs ! 2) ` set (valid_records (open_group (take 6 two_groups_stream))) = {''S1'', ''S2''}"
  by (simp_all add: two_groups_stream_def open_group_def records_of_def key_of_def
      valid_sizes_def valid_records_def samples_of_def line_eval)

text \<open>
  C8 on the first row of the stream of two groups, whose group has three records with an
  integer allele size, from two samples, among its five records.
\<close>

theorem allele_size_histogram_counts_valid_records_witness:
  "row_L1 \<in> set (rows_written (main two_groups_stream)) \<and>
   length (valid_records (open_group (take 6 two_groups_stream))) = 3 \<and>
   process_group ''L1'' ''A'' (valid_sizes (open_group (take 6 two_groups_stream)))
     (samples_of (open_group (take 6 two_groups_stream))) = Inr (Some row_L1) \<and>
   (\<exists>pre post entries.
       two_groups_stream = pre @ post \<and> keys_of pre \<noteq> [] \<and>
       (post = [] \<or> length (fields_of (hd post)) = 4 \<and>
                     key_of (fields_of (hd post)) \<noteq> last (keys_of pre)) \<and>
       process_group (fst (last (keys_of pre))) (snd (last (keys_of pre)))
         (valid_sizes (open_group pre)) (samples_of (open_group pre)) = Inr (Some row_L1) \<and>
       resolve_locus_id (fst (last (keys_of pre))) (snd (last (keys_of pre))) =
         Inr (locus_id row_L1) \<and>
       motif row_L1 = snd (last (keys_of pre)) \<and>
       allele_size_histogram row_L1 =
         join '','' (map (\<lambda>e. str_int (fst e) @ ''x:'' @ str_nat (snd e)) entries) \<and>
       set entries =
         (\<lambda>a. (a, count_list (valid_sizes (open_group pre)) a)) `
            set (valid_sizes (open_group pre)) \<and>
       sorted (map fst entries) \<and> distinct (map fst entries) \<and>
       sum_list (map snd entries) = length (valid_records (open_group pre)))"
proof -
  have h: "row_L1 \<in> set (rows_written (main two_groups_stream))"
    by (simp add: rows_two_groups)
  have n: "length (valid_records (open_group (take 6 two_groups_stream))) = 3"
    by (rule open_group_two_groups)
  have pg: "process_group ''L1'' ''A'' (valid_sizes (open_group (take 6 two_groups_stream)))
     (samples_of (open_group (take 6 two_groups_stream))) = Inr (Some row_L1)"
    by (simp add: open_group_two_groups process_group_example row_L1_def)
  from h n pg allele_size_histogram_counts_valid_records [OF h] show ?thesis
    by (intro conjI)
qed

text \<open>
  C10 on the first row of the stream of two groups.
\<close>

theorem biallelic_histogram_counts_samples_witness:
  "row_L1 \<in> set (rows_written (main two_groups_stream)) \<and>
   card ((\<lambda>fs. fs ! 2) ` set (valid_records (open_group (take 6 two_groups_stream)))) = 2 \<and>
   process_group ''L1'' ''A'' (valid_sizes (open_group (take 6 two_groups_stream)))
     (samples_of (open_group (take 6 two_groups_stream))) = Inr (Some row_L1) \<and>
   (\<exists>pre post entries.
       two_groups_stream = pre @ post \<and> keys_of pre \<noteq> [] \<and>
       (post = [] \<or> length (fields_of (hd post)) = 4 \<and>
                     key_of (fields_of (hd post)) \<noteq> last (keys_of pre)) \<and>
       process_group (fst (last (keys_of pre))) (snd (last (keys_of pre)))
         (valid_sizes (open_group pre)) (samples_of (open_group pre)) = Inr (Some row_L1) \<and>
       resolve_locus_id (fst (last (keys_of pre))) (snd (last (keys_of pre))) =
         Inr (locus_id row_L1) \<and>
       motif row_L1 = snd (last (keys_of pre)) \<and>
       biallelic_histogram row_L1 =
         join '',''
           (map (\<lambda>e. str_int (fst (fst e)) @ ''/'' @ str_int (snd (fst e)) @ '':'' @
                      str_nat (snd e)) entries) \<and>
       set entries =
         (\<lambda>g. (g, count_list (map (\<lambda>x. genotype_of (snd x)) (samples_of (open_group pre))) g)) `
            set (map (\<lambda>x. genotype_of (snd x)) (samples_of (open_group pre))) \<and>
       sorted (map (\<lambda>e. (snd (fst e), fst (fst e))) entries) \<and>
       distinct (map fst entries) \<and>
       sum_list (map snd entries) =
         card ((\<lambda>fs. fs ! 2) ` set (valid_records (open_group pre))))"
proof -
  have h: "row_L1 \<in> set (rows_written (main two_groups_stream))"
    by (simp add: rows_two_groups)
  have n: "card ((\<lambda>fs. fs ! 2) ` set (valid_records (open_group (take 6 two_groups_stream)))) = 2"
    by (simp add: open_group_two_groups)
  have pg: "process_group ''L1'' ''A'' (valid_sizes (open_group (take 6 two_groups_stream)))
     (samples_of (open_group (take 6 two_groups_stream))) = Inr (Some row_L1)"
    by (simp add: open_group_two_groups process_group_example row_L1_def)
  from h n pg biallelic_histogram_counts_samples [OF h] show ?thesis
    by (intro conjI)
qed

text \<open>
  C3, as stated, fails on a stream of one group whose compound locus id has no part ending
  in \<open>-A\<close> and whose sample S1 has three alleles: the group is not empty and an allele list has
  three entries, but the run stops with the error of lines 37--46, which names the motif and
  the raw locus id and no sample.
\<close>

theorem unresolved_locus_id_before_allele_count:
  "main [tsv_line [''1-5-9-T,1-20-29-C'', ''A'', ''S1'', ''1''],
         tsv_line [''1-5-9-T,1-20-29-C'', ''A'', ''S1'', ''2''],
         tsv_line [''1-5-9-T,1-20-29-C'', ''A'', ''S1'', ''3'']] =
     Inl (CannotResolve ''A'' ''1-5-9-T,1-20-29-C'', [])"
  by (simp add: main_eval process_group_def resolve_locus_id_def endswith_def line_eval)


end
